theory Spec2Isabelle
  imports Complex_Main "HOL-Library.Sublist" "HOL-Library.Log_Nat"
begin

section \<open>Data model of the well-log script\<close>

text \<open>
  The script \<^verbatim>\<open>LAS-KGS.py\<close> reads a LAS file into a pandas data frame indexed by
  depth, selects six curves, drops incomplete rows, range-filters, adds the computed
  shale-volume column \<^verbatim>\<open>Vsh\<close> and finally builds four "fraction" polygons.

  A cell of a curve column is a number or NaN (the absence marker that the LAS reader
  puts in place of the null value -999.25). Dropping and filtering only test and
  compare cells. The arithmetic of the script (the subtraction and the division of the
  Vsh column, the additions of the fraction series) is float64 arithmetic and is
  modelled with its rounding, see the section on float64 below.
\<close>

type_synonym cell = "real option"

datatype curve = CNPOR | GR | RHOB | DT | MELCAL | SPOR

text \<open>One row of \<^verbatim>\<open>df_selected\<close>: the depth index and the six selected curves.\<close>

record row =
  Depth :: real
  cnpor :: cell
  gr :: cell
  rhob :: cell
  dt :: cell
  melcal :: cell
  spor :: cell

type_synonym table = "row list"

text \<open>Column access by label, \<^verbatim>\<open>df['GR']\<close> or \<^verbatim>\<open>df.GR\<close>.\<close>

fun cell_of :: "curve \<Rightarrow> row \<Rightarrow> cell" where
  "cell_of CNPOR r = cnpor r"
| "cell_of GR r = gr r"
| "cell_of RHOB r = rhob r"
| "cell_of DT r = dt r"
| "cell_of MELCAL r = melcal r"
| "cell_of SPOR r = spor r"

section \<open>Step 5: dropping rows with missing values\<close>

text \<open>
  \<^verbatim>\<open>df_selected.dropna(subset=[...], axis=0, how='any')\<close>: a row is dropped when any
  of the subset columns is NaN in it. The call returns a new frame.
\<close>

definition isna :: "cell \<Rightarrow> bool" where
  "isna c = (c = None)"

definition any_na :: "curve list \<Rightarrow> row \<Rightarrow> bool" where
  "any_na labels r = list_ex (\<lambda>c. isna (cell_of c r)) labels"

fun dropna :: "curve list \<Rightarrow> table \<Rightarrow> table" where
  "dropna labels [] = []"
| "dropna labels (r # rs) =
     (if any_na labels r then dropna labels rs else r # dropna labels rs)"

section \<open>Step 7: high/low cut filter\<close>

text \<open>
  The comparisons \<^verbatim>\<open>df.C > low\<close> and \<^verbatim>\<open>df.C <= high\<close> are both False on NaN, so
  the boolean mask \<^verbatim>\<open>(df.C > low) & (df.C <= high)\<close> is False there.
\<close>

definition gt_cell :: "cell \<Rightarrow> real \<Rightarrow> bool" where
  "gt_cell c low = (case c of None \<Rightarrow> False | Some v \<Rightarrow> v > low)"

definition le_cell :: "cell \<Rightarrow> real \<Rightarrow> bool" where
  "le_cell c high = (case c of None \<Rightarrow> False | Some v \<Rightarrow> v \<le> high)"

definition range_mask :: "curve \<Rightarrow> real \<Rightarrow> real \<Rightarrow> row \<Rightarrow> bool" where
  "range_mask c low high r = (gt_cell (cell_of c r) low \<and> le_cell (cell_of c r) high)"

text \<open>Boolean-mask indexing \<^verbatim>\<open>t[(t.C > low) & (t.C <= high)]\<close>.\<close>

definition filterRange :: "curve \<Rightarrow> real \<Rightarrow> real \<Rightarrow> table \<Rightarrow> table" where
  "filterRange c low high t = filter (range_mask c low high) t"

text \<open>The script's variables for steps 5 to 7.\<close>

record env =
  df_selected :: table
  df_dropped :: table
  df_filt :: table

definition dropping_rows :: "env \<Rightarrow> env" where
  "dropping_rows e = e\<lparr>df_dropped := dropna [GR, DT, SPOR] (df_selected e)\<rparr>"

text \<open>Lines 121 to 124: four assignments to \<^verbatim>\<open>df_filt\<close>, each indexing \<^verbatim>\<open>df_dropped\<close>.\<close>

definition filtering :: "env \<Rightarrow> env" where
  "filtering e0 =
     (let e1 = e0\<lparr>df_filt := filterRange CNPOR (-15) 50 (df_dropped e0)\<rparr>;
          e2 = e1\<lparr>df_filt := filterRange GR 0 250 (df_dropped e1)\<rparr>;
          e3 = e2\<lparr>df_filt := filterRange RHOB 1 3 (df_dropped e2)\<rparr>;
          e4 = e3\<lparr>df_filt := filterRange DT 30 140 (df_dropped e3)\<rparr>
      in e4)"

text \<open>What chaining the four filters (each applied to the previous result) would give.\<close>

definition filtering_cumulative :: "table \<Rightarrow> table" where
  "filtering_cumulative t =
     filterRange DT 30 140 (filterRange RHOB 1 3 (filterRange GR 0 250
       (filterRange CNPOR (-15) 50 t)))"


section \<open>float64 arithmetic\<close>

text \<open>
  A float64 value is a finite number, NaN or an infinity. A finite value is carried as
  the real number it denotes; the two zeros are not told apart (a zero divisor counts
  as the positive zero, which is what the differences of line 137 yield). The result of
  an operation on finite values is the exact real result rounded to the nearest float64,
  ties to the even mantissa (IEEE-754 binary64, as Python and numpy compute): 53 bits
  of mantissa, the smallest positive value \<open>2 powi (- 1074)\<close>, the largest finite value
  \<open>(2 ^ 53 - 1) * 2 ^ 971\<close>, and an infinity beyond it.
\<close>

datatype float64 = Fin real | NaN | PInf | NInf

text \<open>Rounding a real to the nearest integer, a tie to the even one.\<close>

definition rne :: "real \<Rightarrow> int" where
  "rne r = (let f = \<lfloor>r\<rfloor>; d = r - of_int f
            in if d < 1/2 then f else if d > 1/2 then f + 1
               else if even f then f else f + 1)"

definition denorm_scale :: real where
  "denorm_scale = 2 ^ 1074"

text \<open>
  The exponent of the last mantissa bit of a magnitude \<open>a\<close>: 52 below the exponent of
  its leading bit, and never below -1074 (the subnormal range).
\<close>

definition qexp :: "real \<Rightarrow> int" where
  "qexp a = max (bitlen \<lfloor>a * denorm_scale\<rfloor> - 1127) (- 1074)"

definition round_mag :: "real \<Rightarrow> real" where
  "round_mag a = of_int (rne (a / 2 powi qexp a)) * 2 powi qexp a"

definition max_float :: real where
  "max_float = (2 ^ 53 - 1) * 2 ^ 971"

definition round64 :: "real \<Rightarrow> float64" where
  "round64 x =
     (if x < 0
      then (if round_mag (- x) > max_float then NInf else Fin (- round_mag (- x)))
      else (if round_mag x > max_float then PInf else Fin (round_mag x)))"

text \<open>The comparison \<^verbatim>\<open><=\<close>: False when an operand is NaN.\<close>

fun f64_le :: "float64 \<Rightarrow> float64 \<Rightarrow> bool" where
  "f64_le NaN _ = False"
| "f64_le _ NaN = False"
| "f64_le NInf _ = True"
| "f64_le _ PInf = True"
| "f64_le (Fin a) (Fin b) = (a \<le> b)"
| "f64_le _ _ = False"

text \<open>Addition, subtraction and division; none of them raises.\<close>

fun fadd64 :: "float64 \<Rightarrow> float64 \<Rightarrow> float64" where
  "fadd64 (Fin a) (Fin b) = round64 (a + b)"
| "fadd64 NaN _ = NaN"
| "fadd64 _ NaN = NaN"
| "fadd64 PInf NInf = NaN"
| "fadd64 NInf PInf = NaN"
| "fadd64 PInf _ = PInf"
| "fadd64 _ PInf = PInf"
| "fadd64 NInf _ = NInf"
| "fadd64 _ NInf = NInf"

fun fsub64 :: "float64 \<Rightarrow> float64 \<Rightarrow> float64" where
  "fsub64 (Fin a) (Fin b) = round64 (a - b)"
| "fsub64 NaN _ = NaN"
| "fsub64 _ NaN = NaN"
| "fsub64 PInf PInf = NaN"
| "fsub64 NInf NInf = NaN"
| "fsub64 PInf _ = PInf"
| "fsub64 _ PInf = NInf"
| "fsub64 NInf _ = NInf"
| "fsub64 _ NInf = PInf"

fun fdiv64 :: "float64 \<Rightarrow> float64 \<Rightarrow> float64" where
  "fdiv64 (Fin a) (Fin b) =
     (if b \<noteq> 0 then round64 (a / b)
      else if a = 0 then NaN
      else if a > 0 then PInf else NInf)"
| "fdiv64 NaN _ = NaN"
| "fdiv64 _ NaN = NaN"
| "fdiv64 (Fin a) PInf = Fin 0"
| "fdiv64 (Fin a) NInf = Fin 0"
| "fdiv64 PInf (Fin b) = (if b < 0 then NInf else PInf)"
| "fdiv64 NInf (Fin b) = (if b < 0 then PInf else NInf)"
| "fdiv64 PInf PInf = NaN"
| "fdiv64 PInf NInf = NaN"
| "fdiv64 NInf PInf = NaN"
| "fdiv64 NInf NInf = NaN"

text \<open>
  A value of the type is a float64 when it is NaN, an infinity, or a real that rounding
  leaves in place.
\<close>

fun is_f64 :: "float64 \<Rightarrow> bool" where
  "is_f64 (Fin x) = (round64 x = Fin x)"
| "is_f64 _ = True"

section \<open>Step 8: the computed shale-volume column\<close>

text \<open>
  Line 137: \<^verbatim>\<open>df['Vsh'] = (df.GR - df.GR.min()) / (df.GR.max() - df.GR.min())\<close>.

  \<^verbatim>\<open>Series.min()\<close> and \<^verbatim>\<open>Series.max()\<close> skip NaN and return NaN when nothing is left
  (also on a series of zero rows). The subtractions and the division are float64
  operations on the cells: NaN propagates, 0/0 is NaN, and nothing raises.
\<close>

fun present :: "cell list \<Rightarrow> real list" where
  "present [] = []"
| "present (None # cs) = present cs"
| "present (Some v # cs) = v # present cs"

definition series_min :: "cell list \<Rightarrow> cell" where
  "series_min cs = (case present cs of [] \<Rightarrow> None | v # vs \<Rightarrow> Some (fold min vs v))"

definition series_max :: "cell list \<Rightarrow> cell" where
  "series_max cs = (case present cs of [] \<Rightarrow> None | v # vs \<Rightarrow> Some (fold max vs v))"

fun to_f64 :: "cell \<Rightarrow> float64" where
  "to_f64 None = NaN"
| "to_f64 (Some v) = Fin v"

text \<open>A row of \<^verbatim>\<open>df\<close> after step 8: the copied row and its \<^verbatim>\<open>Vsh\<close> value.\<close>

record vrow =
  cols :: row
  Vsh :: float64

text \<open>The only exception that the modelled statements of the script can raise.\<close>

datatype error = IndexError

text \<open>
  Lines 131 to 137: \<^verbatim>\<open>df = df_filt.copy()\<close>, then the column assignment. No statement
  of the step raises, so the result is always \<open>Inr\<close>.
\<close>

definition add_Vsh :: "table \<Rightarrow> error + vrow list" where
  "add_Vsh df_filt0 =
     (let df = df_filt0;
          lo = to_f64 (series_min (map gr df));
          hi = to_f64 (series_max (map gr df))
      in Inr (map (\<lambda>r. \<lparr>cols = r,
                          Vsh = fdiv64 (fsub64 (to_f64 (gr r)) lo) (fsub64 hi lo)\<rparr>) df))"

text \<open>A sample table for concrete evaluation: only GR and DT vary.\<close>

definition sample_row :: "real \<Rightarrow> cell \<Rightarrow> cell \<Rightarrow> row" where
  "sample_row d g t =
     \<lparr>Depth = d, cnpor = Some 60, gr = g, rhob = Some 2, dt = t, melcal = Some 8, spor = Some 10\<rparr>"


section \<open>The fraction series and their polygons\<close>

text \<open>
  Lines 343 to 358. A point is the two-element list \<^verbatim>\<open>[value, depth]\<close> of float64
  values. The series \<^verbatim>\<open>series1\<close> to \<^verbatim>\<open>series4\<close>, \<^verbatim>\<open>depths\<close>, \<^verbatim>\<open>min_depth\<close> and
  \<^verbatim>\<open>max_depth\<close> are the variables that the loop and the polygon assignments read; they
  are parameters here.

  Reading \<^verbatim>\<open>xs[i]\<close> and assigning \<^verbatim>\<open>xs[i] = v\<close> raise IndexError when \<^verbatim>\<open>i\<close> is not below
  \<^verbatim>\<open>len(xs)\<close> (the loop index is never negative).
\<close>

type_synonym point = "float64 list"

definition bind_e :: "error + 'a \<Rightarrow> ('a \<Rightarrow> error + 'b) \<Rightarrow> error + 'b" where
  "bind_e m f = (case m of Inl e \<Rightarrow> Inl e | Inr x \<Rightarrow> f x)"

definition get_item :: "'a list \<Rightarrow> nat \<Rightarrow> error + 'a" where
  "get_item xs i = (if i < length xs then Inr (xs ! i) else Inl IndexError)"

definition set_item :: "'a list \<Rightarrow> nat \<Rightarrow> 'a \<Rightarrow> error + 'a list" where
  "set_item xs i v = (if i < length xs then Inr (xs[i := v]) else Inl IndexError)"

record fracs =
  fraction1 :: "point list"
  fraction2 :: "point list"
  fraction3 :: "point list"
  fraction4 :: "point list"

text \<open>
  The body of the loop at index \<open>i\<close>, lines 346 to 349, every subscript in the order
  Python evaluates it.
\<close>


definition loop_body ::
  "float64 list \<Rightarrow> float64 list \<Rightarrow> float64 list \<Rightarrow> float64 list \<Rightarrow> float64 list
     \<Rightarrow> nat \<Rightarrow> fracs \<Rightarrow> error + fracs"
where
  "loop_body series1 series2 series3 series4 depths i f =
     bind_e (get_item series1 i) (\<lambda>a1.
     bind_e (get_item depths i) (\<lambda>d1.
     bind_e (set_item (fraction1 f) i [a1, d1]) (\<lambda>x1.
     bind_e (get_item series2 i) (\<lambda>b2.
     bind_e (get_item series1 i) (\<lambda>b1.
     bind_e (get_item depths i) (\<lambda>d2.
     bind_e (set_item (fraction2 f) i [fadd64 b2 b1, d2]) (\<lambda>x2.
     bind_e (get_item series3 i) (\<lambda>c3.
     bind_e (get_item series2 i) (\<lambda>c2.
     bind_e (get_item series1 i) (\<lambda>c1.
     bind_e (get_item depths i) (\<lambda>d3.
     bind_e (set_item (fraction3 f) i [fadd64 (fadd64 c3 c2) c1, d3]) (\<lambda>x3.
     bind_e (get_item series4 i) (\<lambda>e4.
     bind_e (get_item series3 i) (\<lambda>e3.
     bind_e (get_item series2 i) (\<lambda>e2.
     bind_e (get_item series1 i) (\<lambda>e1.
     bind_e (get_item depths i) (\<lambda>d4.
     bind_e (set_item (fraction4 f) i [fadd64 (fadd64 (fadd64 e4 e3) e2) e1, d4]) (\<lambda>x4.
     Inr \<lparr>fraction1 = x1, fraction2 = x2, fraction3 = x3, fraction4 = x4\<rparr>
     ))))))))))))))))))"

text \<open>\<^verbatim>\<open>for i in range(...)\<close>: the body at each index in turn, stopping at the first raise.\<close>

fun for_range :: "(nat \<Rightarrow> 's \<Rightarrow> error + 's) \<Rightarrow> nat list \<Rightarrow> 's \<Rightarrow> error + 's" where
  "for_range body [] s = Inr s"
| "for_range body (i # is) s = bind_e (body i s) (for_range body is)"

text \<open>Line 343 (each name gets its own list of \<^verbatim>\<open>len(depths)\<close> empty lists) and the loop.\<close>


definition fraction_loop ::
  "float64 list \<Rightarrow> float64 list \<Rightarrow> float64 list \<Rightarrow> float64 list \<Rightarrow> float64 list
     \<Rightarrow> error + fracs"
where
  "fraction_loop series1 series2 series3 series4 depths =
     for_range (loop_body series1 series2 series3 series4 depths) [0..<length depths]
       \<lparr>fraction1 = replicate (length depths) [], fraction2 = replicate (length depths) [],
        fraction3 = replicate (length depths) [], fraction4 = replicate (length depths) []\<rparr>"

text \<open>Line 350.\<close>

definition fractions ::
  "float64 list \<Rightarrow> float64 list \<Rightarrow> float64 list \<Rightarrow> float64 list \<Rightarrow> float64 list
     \<Rightarrow> error + point list list"
where
  "fractions series1 series2 series3 series4 depths =
     bind_e (fraction_loop series1 series2 series3 series4 depths)
       (\<lambda>f. Inr [fraction1 f, fraction2 f, fraction3 f, fraction4 f])"

text \<open>Lines 323 and 325.\<close>

definition min_coord :: "float64 \<Rightarrow> point list" where
  "min_coord min_depth = [[Fin 0, min_depth]]"

definition max_coord :: "float64 \<Rightarrow> point list" where
  "max_coord max_depth = [[Fin 0, max_depth]]"

text \<open>
  Lines 354 to 357. Each \<^verbatim>\<open>polygonK\<close> is a list holding one vertex list;
  \<^verbatim>\<open>xs[::-1]\<close> is the reversed list.
\<close>

definition polygon1 :: "float64 \<Rightarrow> float64 \<Rightarrow> fracs \<Rightarrow> point list list" where
  "polygon1 min_depth max_depth f = [max_coord max_depth @ min_coord min_depth @ fraction1 f]"

definition polygon2 :: "fracs \<Rightarrow> point list list" where
  "polygon2 f = [fraction1 f @ rev (fraction2 f)]"

definition polygon3 :: "fracs \<Rightarrow> point list list" where
  "polygon3 f = [fraction2 f @ rev (fraction3 f)]"

definition polygon4 :: "fracs \<Rightarrow> point list list" where
  "polygon4 f = [fraction3 f @ rev (fraction4 f)]"

text \<open>Line 358, after the loop has run.\<close>

definition polygons ::
  "float64 list \<Rightarrow> float64 list \<Rightarrow> float64 list \<Rightarrow> float64 list \<Rightarrow> float64 list
     \<Rightarrow> float64 \<Rightarrow> float64 \<Rightarrow> error + point list list list"
where
  "polygons series1 series2 series3 series4 depths min_depth max_depth =
     bind_e (fraction_loop series1 series2 series3 series4 depths)
       (\<lambda>f. Inr [polygon1 min_depth max_depth f, polygon2 f, polygon3 f, polygon4 f])"

subsection \<open>The construction in the specification's words\<close>

text \<open>
  For component series \<open>cs\<close> (a list of N series), a vertex series pairs a cumulative
  value \<open>C k i\<close> with \<open>depths[i]\<close>, and the polygon of component \<open>k\<close> is the two anchors
  followed by \<open>V[0]\<close> for \<open>k = 0\<close> and \<open>V[k-1]\<close> followed by the reverse of \<open>V[k]\<close>
  otherwise.
\<close>

definition points :: "(nat \<Rightarrow> float64) \<Rightarrow> float64 list \<Rightarrow> point list" where
  "points c depths = map (\<lambda>i. [c i, depths ! i]) [0..<length depths]"

definition V_of :: "(nat \<Rightarrow> nat \<Rightarrow> float64) \<Rightarrow> float64 list \<Rightarrow> nat \<Rightarrow> point list" where
  "V_of C depths k = points (C k) depths"

definition polygon_of ::
  "(nat \<Rightarrow> nat \<Rightarrow> float64) \<Rightarrow> float64 list \<Rightarrow> float64 \<Rightarrow> float64 \<Rightarrow> nat \<Rightarrow> point list"
where
  "polygon_of C depths minDepth maxDepth k =
     (if k = 0 then [[Fin 0, maxDepth], [Fin 0, minDepth]] @ V_of C depths 0
      else V_of C depths (k - 1) @ rev (V_of C depths k))"

text \<open>
  The specification's cumulative value: the sum of \<open>cs[0..k]\<close> at \<open>i\<close>, taken from
  component 0 upward.
\<close>

definition C_spec :: "float64 list list \<Rightarrow> nat \<Rightarrow> nat \<Rightarrow> float64" where
  "C_spec cs k i = foldl fadd64 (cs ! 0 ! i) (map (\<lambda>j. cs ! j ! i) [1..<Suc k])"

text \<open>
  The same sum in the order of lines 347 to 349: from component \<open>k\<close> downward,
  \<open>cs[k][i] + cs[k-1][i] + ... + cs[0][i]\<close>, added from the left.
\<close>

definition C_code :: "float64 list list \<Rightarrow> nat \<Rightarrow> nat \<Rightarrow> float64" where
  "C_code cs k i = foldl fadd64 (cs ! k ! i) (map (\<lambda>j. cs ! j ! i) (rev [0..<k]))"

subsection \<open>Auxiliary definitions for the proofs and the concrete runs\<close>

text \<open>The values that lines 346 to 349 store at index \<open>i\<close>.\<close>

definition cumulative1 :: "float64 list \<Rightarrow> nat \<Rightarrow> float64" where
  "cumulative1 series1 i = series1 ! i"

definition cumulative2 :: "float64 list \<Rightarrow> float64 list \<Rightarrow> nat \<Rightarrow> float64" where
  "cumulative2 series1 series2 i = fadd64 (series2 ! i) (series1 ! i)"

definition cumulative3 ::
  "float64 list \<Rightarrow> float64 list \<Rightarrow> float64 list \<Rightarrow> nat \<Rightarrow> float64" where
  "cumulative3 series1 series2 series3 i =
     fadd64 (fadd64 (series3 ! i) (series2 ! i)) (series1 ! i)"

definition cumulative4 ::
  "float64 list \<Rightarrow> float64 list \<Rightarrow> float64 list \<Rightarrow> float64 list \<Rightarrow> nat \<Rightarrow> float64" where
  "cumulative4 series1 series2 series3 series4 i =
     fadd64 (fadd64 (fadd64 (series4 ! i) (series3 ! i)) (series2 ! i)) (series1 ! i)"

text \<open>
  The point lists while the loop runs: the indices below \<open>k\<close> hold their points, the
  others still hold the empty list of line 343.
\<close>

definition filled :: "nat \<Rightarrow> nat \<Rightarrow> (nat \<Rightarrow> point) \<Rightarrow> point list" where
  "filled n k p = map p [0..<k] @ replicate (n - k) []"

text \<open>
  The four series of lines 316 to 319, each literal the float64 nearest to it, and five
  depths from 0 to 4.
\<close>

definition demo_series1 :: "float64 list" where
  "demo_series1 = map round64 [0.292, 0.333, 0.200, 0.458, 0.292]"

definition demo_series2 :: "float64 list" where
  "demo_series2 = map round64 [0.083, 0.125, 0.167, 0.125, 0.083]"

definition demo_series3 :: "float64 list" where
  "demo_series3 = map round64 [0.292, 0.333, 0.292, 0.083, 0.083]"

definition demo_series4 :: "float64 list" where
  "demo_series4 = map round64 [0.333, 0.208, 0.341, 0.333, 0.542]"

definition demo_depths :: "float64 list" where
  "demo_depths = [Fin 0, Fin 1, Fin 2, Fin 3, Fin 4]"

section \<open>Properties of the table steps\<close>

lemma dropna_filter: "dropna labels t = filter (\<lambda>r. \<not> any_na labels r) t"
  by (induction t) simp_all

lemma any_na_iff: "any_na labels r \<longleftrightarrow> (\<exists>c\<in>set labels. cell_of c r = None)"
  by (simp add: any_na_def isna_def list_ex_iff)

text \<open>
  C1. In the filtering stage every one of the four range filters indexes the same
  \<^verbatim>\<open>df_dropped\<close>, so the final \<^verbatim>\<open>df_filt\<close> is \<^verbatim>\<open>df_dropped\<close> restricted by the last
  bounds only, 30 < DT <= 140: a row is kept exactly when its DT passes, whatever
  its CNPOR, GR and RHOB hold; \<^verbatim>\<open>df_dropped\<close> itself is not changed.
\<close>

theorem filtering_only_last:
  "df_filt (filtering e) = filterRange DT 30 140 (df_dropped e)
   \<and> df_filt (filtering e) = filter (\<lambda>r. gt_cell (dt r) 30 \<and> le_cell (dt r) 140) (df_dropped e)
   \<and> df_dropped (filtering e) = df_dropped e"
  by (simp add: filtering_def filterRange_def range_mask_def Let_def cong: filter_cong)

lemma filtering_differs_from_cumulative:
  "df_filt (filtering \<lparr>df_selected = [], df_dropped = [sample_row 1 (Some 5) (Some 50)],
                       df_filt = []\<rparr>) = [sample_row 1 (Some 5) (Some 50)]
   \<and> filtering_cumulative [sample_row 1 (Some 5) (Some 50)] = []"
  by (simp add: filtering_def filtering_cumulative_def filterRange_def range_mask_def
      gt_cell_def le_cell_def sample_row_def Let_def)

text \<open>
  C7. filterRange is idempotent: filtering the output again with the same column and
  bounds returns it unchanged.
\<close>

theorem filterRange_idempotent:
  "filterRange c low high (filterRange c low high t) = filterRange c low high t"
  by (simp add: filterRange_def)

text \<open>
  C8. dropna over a required subset keeps exactly the rows with no NaN in any required
  column (in particular no retained row has one), keeps them in their original
  relative order, and the frame it was applied to stays as it was.
\<close>

theorem dropna_exact:
  "dropna labels t = filter (\<lambda>r. \<not> (\<exists>c\<in>set labels. cell_of c r = None)) t
   \<and> (\<forall>r\<in>set (dropna labels t). \<forall>c\<in>set labels. cell_of c r \<noteq> None)
   \<and> subseq (dropna labels t) t
   \<and> df_selected (dropping_rows e) = df_selected e
   \<and> df_dropped (dropping_rows e) = dropna [GR, DT, SPOR] (df_selected e)"
  by (simp add: dropna_filter any_na_iff dropping_rows_def)

theorem dropna_exact_witness:
  "dropna [GR, DT, SPOR]
     [sample_row 1 (Some 5) (Some 50), sample_row 2 None (Some 50), sample_row 3 (Some 7) None,
      sample_row 4 (Some 9) (Some 60)]
   = [sample_row 1 (Some 5) (Some 50), sample_row 4 (Some 9) (Some 60)]"
  using dropna_exact [of "[GR, DT, SPOR]"
     "[sample_row 1 (Some 5) (Some 50), sample_row 2 None (Some 50), sample_row 3 (Some 7) None,
       sample_row 4 (Some 9) (Some 60)]"]
  by (simp add: sample_row_def)


section \<open>Properties of float64 rounding\<close>

lemma rne_of_int: "rne (of_int n) = n"
  by (simp add: rne_def)

lemma rne_bounds: "\<lfloor>r\<rfloor> \<le> rne r \<and> rne r \<le> \<lfloor>r\<rfloor> + 1"
  by (simp add: rne_def Let_def)

lemma rne_mono:
  assumes "r \<le> s"
  shows "rne r \<le> rne s"
proof (cases "\<lfloor>r\<rfloor> = \<lfloor>s\<rfloor>")
  case True
  then have "r - of_int \<lfloor>r\<rfloor> \<le> s - of_int \<lfloor>s\<rfloor>" using assms by simp
  then show ?thesis using True by (auto simp: rne_def Let_def)
next
  case False
  then have "\<lfloor>r\<rfloor> < \<lfloor>s\<rfloor>" using floor_mono [OF assms] by simp
  then have "rne r \<le> \<lfloor>s\<rfloor>" using rne_bounds [of r] by simp
  then show ?thesis using rne_bounds [of s] by simp
qed

lemma denorm_scale_pos: "0 < denorm_scale"
  by (simp add: denorm_scale_def)

lemma bitlen_mono: "x \<le> y \<Longrightarrow> bitlen x \<le> bitlen y"
  by (auto simp: bitlen_def intro: floorlog_mono)

lemma qexp_ge: "- 1074 \<le> qexp a"
  by (simp add: qexp_def)

lemma qexp_mono: "a \<le> b \<Longrightarrow> qexp a \<le> qexp b"
proof -
  assume "a \<le> b"
  then have "\<lfloor>a * denorm_scale\<rfloor> \<le> \<lfloor>b * denorm_scale\<rfloor>"
    using denorm_scale_pos by (intro floor_mono) simp
  then show ?thesis
    using bitlen_mono by (fastforce simp: qexp_def)
qed

lemma denorm_scale_powi: "denorm_scale = 2 powi 1074"
  unfolding denorm_scale_def by (rule power_int_numeral [symmetric])

lemma pow_shift: "denorm_scale * 2 powi k = 2 powi (k + 1074)"
proof -
  have "(2::real) powi (1074 + k) = 2 powi 1074 * 2 powi k"
    by (rule power_int_add) simp
  then show ?thesis by (simp only: denorm_scale_powi add.commute)
qed

lemma qexp_upper:
  assumes "0 \<le> a"
  shows "a < 2 powi (qexp a + 53)"
proof -
  define N where "N = \<lfloor>a * denorm_scale\<rfloor>"
  define w where "w = qexp a + 1127"
  have w: "bitlen N \<le> w" "0 \<le> w"
    by (auto simp: w_def qexp_def N_def)
  then have "N < 2 ^ nat w"
    using bitlen_le_iff_power [of N w] by simp
  then have "N + 1 \<le> 2 ^ nat w" by simp
  then have "real_of_int (N + 1) \<le> real_of_int (2 ^ nat w)"
    by (simp only: of_int_le_iff)
  moreover have "a * denorm_scale < real_of_int (N + 1)"
    unfolding N_def by linarith
  ultimately have "a * denorm_scale < 2 ^ nat w" by simp
  also have "(2::real) ^ nat w = 2 powi w" using w(2) by (simp add: power_int_nonneg_exp)
  also have "\<dots> = denorm_scale * 2 powi (qexp a + 53)"
  proof -
    have "qexp a + 53 + 1074 = w" by (simp add: w_def)
    then show ?thesis by (simp only: pow_shift)
  qed
  finally show ?thesis using denorm_scale_pos by simp
qed

lemma qexp_lower:
  assumes "- 1074 < qexp a"
  shows "2 powi (qexp a + 52) \<le> a"
proof -
  define N where "N = \<lfloor>a * denorm_scale\<rfloor>"
  define w where "w = qexp a + 1127"
  have b: "bitlen N = w" using assms by (auto simp: w_def qexp_def N_def max_def split: if_splits)
  have w: "1 \<le> w" using assms by (simp add: w_def)
  then have "2 ^ (nat w - 1) \<le> N"
    using bitlen_ge_iff_power [of w N] b by simp
  then have "real_of_int (2 ^ (nat w - 1)) \<le> real_of_int N"
    by (simp only: of_int_le_iff)
  moreover have "real_of_int N \<le> a * denorm_scale" unfolding N_def by simp
  ultimately have "(2::real) ^ (nat w - 1) \<le> a * denorm_scale"
    by (simp only: of_int_power of_int_numeral)
  moreover have "(2::real) ^ (nat w - 1) = 2 powi (w - 1)"
    using w by (simp add: power_int_nonneg_exp nat_diff_distrib)
  moreover have "(2::real) powi (w - 1) = denorm_scale * 2 powi (qexp a + 52)"
  proof -
    have "qexp a + 52 + 1074 = w - 1" by (simp add: w_def)
    then show ?thesis by (simp only: pow_shift)
  qed
  ultimately show ?thesis using denorm_scale_pos by simp
qed

lemma qexp_eq:
  assumes "0 \<le> a" and "- 1074 \<le> e" and "a < 2 powi (e + 53)"
    and "e = - 1074 \<or> 2 powi (e + 52) \<le> a"
  shows "qexp a = e"
proof (rule antisym)
  show "qexp a \<le> e"
  proof (rule ccontr)
    assume "\<not> qexp a \<le> e"
    then have lt: "e < qexp a" by simp
    then have "- 1074 < qexp a" using assms(2) by simp
    then have "2 powi (qexp a + 52) \<le> a" by (rule qexp_lower)
    moreover have "(2::real) powi (e + 53) \<le> 2 powi (qexp a + 52)"
      using lt by (intro power_int_increasing) simp_all
    ultimately show False using assms(3) by simp
  qed
  show "e \<le> qexp a"
  proof (rule ccontr)
    assume "\<not> e \<le> qexp a"
    then have lt: "qexp a < e" by simp
    then have "e \<noteq> - 1074" using qexp_ge [of a] by simp
    then have "2 powi (e + 52) \<le> a" using assms(4) by simp
    moreover have "a < 2 powi (qexp a + 53)" using assms(1) by (rule qexp_upper)
    moreover have "(2::real) powi (qexp a + 53) \<le> 2 powi (e + 52)"
      using lt by (intro power_int_increasing) simp_all
    ultimately show False by simp
  qed
qed


lemma rne_le: "r \<le> of_int n \<Longrightarrow> rne r \<le> n"
  using rne_mono [of r "of_int n"] by (simp add: rne_of_int)

lemma rne_ge: "of_int n \<le> r \<Longrightarrow> n \<le> rne r"
  using rne_mono [of "of_int n" r] by (simp add: rne_of_int)

lemma powi_split: "k' = k + int n \<Longrightarrow> (2::real) powi k' = 2 powi k * 2 ^ n"
  by (simp add: power_int_add)

lemma two_powi_pos: "0 < (2::real) powi k"
  by simp

lemma round_mag_nonneg:
  assumes "0 \<le> a"
  shows "0 \<le> round_mag a"
proof -
  have "of_int 0 \<le> a / 2 powi qexp a" using assms by simp
  then have "0 \<le> rne (a / 2 powi qexp a)" by (rule rne_ge)
  then show ?thesis by (simp add: round_mag_def)
qed

lemma round_mag_mantissa:
  assumes "0 \<le> a"
  shows "0 \<le> rne (a / 2 powi qexp a)" and "rne (a / 2 powi qexp a) \<le> 2 ^ 53"
proof -
  have "of_int 0 \<le> a / 2 powi qexp a" using assms by simp
  then show "0 \<le> rne (a / 2 powi qexp a)" by (rule rne_ge)
  have "a < 2 powi (qexp a + 53)" using assms by (rule qexp_upper)
  also have "(2::real) powi (qexp a + 53) = 2 powi qexp a * 2 ^ 53"
    by (subst power_int_add) simp_all
  finally have "a / 2 powi qexp a < 2 ^ 53"
    by (simp add: pos_divide_less_eq mult.commute)
  then have "a / 2 powi qexp a \<le> of_int (2 ^ 53)" by simp
  then show "rne (a / 2 powi qexp a) \<le> 2 ^ 53" by (rule rne_le)
qed

lemma round_mag_upper:
  assumes "0 \<le> a"
  shows "round_mag a \<le> 2 powi (qexp a + 53)"
proof -
  have "real_of_int (rne (a / 2 powi qexp a)) \<le> real_of_int (2 ^ 53)"
    using round_mag_mantissa(2) [OF assms] by (simp only: of_int_le_iff)
  then have "round_mag a \<le> 2 ^ 53 * 2 powi qexp a"
    unfolding round_mag_def by (intro mult_right_mono) simp_all
  also have "\<dots> = 2 powi (qexp a + 53)"
    by (subst power_int_add) simp_all
  finally show ?thesis .
qed

lemma round_mag_lower:
  assumes "- 1074 < qexp a"
  shows "2 powi (qexp a + 52) \<le> round_mag a"
proof -
  have "2 powi (qexp a + 52) \<le> a" using assms by (rule qexp_lower)
  moreover have "(2::real) powi (qexp a + 52) = 2 powi qexp a * 2 ^ 52"
    by (subst power_int_add) simp_all
  ultimately have "2 ^ 52 \<le> a / 2 powi qexp a"
    by (simp add: pos_le_divide_eq mult.commute)
  then have "of_int (2 ^ 52) \<le> a / 2 powi qexp a" by simp
  then have "2 ^ 52 \<le> rne (a / 2 powi qexp a)" by (rule rne_ge)
  then have "real_of_int (2 ^ 52) \<le> real_of_int (rne (a / 2 powi qexp a))"
    by (simp only: of_int_le_iff)
  then have "2 ^ 52 * 2 powi qexp a \<le> round_mag a"
    unfolding round_mag_def by (intro mult_right_mono) simp_all
  moreover have "(2::real) ^ 52 * 2 powi qexp a = 2 powi (qexp a + 52)"
    by (subst power_int_add) simp_all
  ultimately show ?thesis by simp
qed

lemma round_mag_mono:
  assumes "0 \<le> a" and "a \<le> b"
  shows "round_mag a \<le> round_mag b"
proof (cases "qexp a = qexp b")
  case True
  have "a / 2 powi qexp b \<le> b / 2 powi qexp b"
    using assms(2) by (simp add: divide_right_mono)
  then have "rne (a / 2 powi qexp b) \<le> rne (b / 2 powi qexp b)" by (rule rne_mono)
  then have "real_of_int (rne (a / 2 powi qexp b)) \<le> real_of_int (rne (b / 2 powi qexp b))"
    by (simp only: of_int_le_iff)
  then show ?thesis
    unfolding round_mag_def True by (intro mult_right_mono) simp_all
next
  case False
  then have lt: "qexp a < qexp b" using qexp_mono [OF assms(2)] by simp
  then have "- 1074 < qexp b" using qexp_ge [of a] by simp
  then have "2 powi (qexp b + 52) \<le> round_mag b" by (rule round_mag_lower)
  moreover have "round_mag a \<le> 2 powi (qexp a + 53)" using assms(1) by (rule round_mag_upper)
  moreover have "(2::real) powi (qexp a + 53) \<le> 2 powi (qexp b + 52)"
    using lt by (intro power_int_increasing) simp_all
  ultimately show ?thesis by simp
qed

lemma round_mag_0: "round_mag 0 = 0"
  by (simp add: round_mag_def rne_def)

lemma round_mag_exact:
  assumes "0 \<le> n" and "n \<le> 2 ^ 53" and "- 1074 \<le> e"
  shows "round_mag (of_int n * 2 powi e) = of_int n * 2 powi e"
proof (cases "n = 2 ^ 53")
  case True
  have a: "real_of_int n * 2 powi e = 2 powi (e + 53)"
    unfolding True by (subst power_int_add) simp_all
  have q: "qexp (2 powi (e + 53)) = e + 1"
  proof (rule qexp_eq)
    show "0 \<le> (2::real) powi (e + 53)" by simp
    show "- 1074 \<le> e + 1" using assms(3) by simp
    show "(2::real) powi (e + 53) < 2 powi (e + 1 + 53)"
      by (intro power_int_strict_increasing) simp_all
    have "e + 1 + 52 = e + 53" by simp
    then show "e + 1 = - 1074 \<or> (2::real) powi (e + 1 + 52) \<le> 2 powi (e + 53)"
      by (simp only: order_refl simp_thms)
  qed
  have sp: "(2::real) powi (e + 53) = 2 powi (e + 1) * 2 ^ 52"
    by (rule powi_split) simp
  from sp have "(2::real) powi (e + 53) / 2 powi (e + 1) = of_int (2 ^ 52)"
    by simp
  then have "rne (2 powi (e + 53) / 2 powi (e + 1)) = 2 ^ 52"
    by (simp only: rne_of_int)
  then have "round_mag (2 powi (e + 53)) = 2 ^ 52 * 2 powi (e + 1)"
    by (simp add: round_mag_def q)
  also have "\<dots> = 2 powi (e + 53)"
    by (simp only: sp mult.commute)
  finally show ?thesis by (simp only: a)
next
  case False
  define a where "a = real_of_int n * 2 powi e"
  have nn: "0 \<le> a" using assms(1) by (simp add: a_def)
  have "n < 2 ^ 53" using False assms(2) by simp
  then have "real_of_int n < real_of_int (2 ^ 53)" by (simp only: of_int_less_iff)
  then have "a < 2 ^ 53 * 2 powi e"
    unfolding a_def by (intro mult_strict_right_mono) simp_all
  also have "\<dots> = 2 powi (e + 53)" by (subst power_int_add) simp_all
  finally have up: "a < 2 powi (e + 53)" .
  have qe: "qexp a \<le> e"
  proof (rule ccontr)
    assume "\<not> qexp a \<le> e"
    then have lt: "e < qexp a" by simp
    then have "- 1074 < qexp a" using assms(3) by simp
    then have "2 powi (qexp a + 52) \<le> a" by (rule qexp_lower)
    moreover have "(2::real) powi (e + 53) \<le> 2 powi (qexp a + 52)"
      using lt by (intro power_int_increasing) simp_all
    ultimately show False using up by simp
  qed
  define d where "d = nat (e - qexp a)"
  have e: "e = qexp a + int d" using qe by (simp add: d_def)
  have pe: "(2::real) powi e = 2 powi qexp a * 2 ^ d"
    using e by (rule powi_split)
  have a2: "a = of_int n * (2 powi qexp a * 2 ^ d)"
    unfolding pe [symmetric] by (rule a_def)
  have "of_int n * (2 powi qexp a * 2 ^ d) / 2 powi qexp a = real_of_int (n * 2 ^ d)"
    by simp
  then have "a / 2 powi qexp a = of_int (n * 2 ^ d)"
    using a2 by simp
  then have "rne (a / 2 powi qexp a) = n * 2 ^ d"
    by (simp only: rne_of_int)
  then have "round_mag a = of_int (n * 2 ^ d) * 2 powi qexp a"
    by (simp add: round_mag_def)
  also have "\<dots> = of_int n * (2 powi qexp a * 2 ^ d)" by simp
  also have "\<dots> = a" by (rule a2 [symmetric])
  finally show ?thesis unfolding a_def .
qed

lemma round_mag_idem:
  assumes "0 \<le> a"
  shows "round_mag (round_mag a) = round_mag a"
  unfolding round_mag_def [of a]
  using round_mag_mantissa [OF assms] qexp_ge [of a]
  by (intro round_mag_exact) simp_all


lemma round64_0: "round64 0 = Fin 0"
  by (simp add: round64_def round_mag_0 max_float_def)

lemma round64_mono:
  assumes "x \<le> y"
  shows "f64_le (round64 x) (round64 y)"
proof (cases "x < 0")
  case xneg: True
  show ?thesis
  proof (cases "y < 0")
    case True
    have "round_mag (- y) \<le> round_mag (- x)"
      using True assms by (intro round_mag_mono) simp_all
    then show ?thesis using True xneg by (simp add: round64_def)
  next
    case False
    then have "0 \<le> round_mag y" by (intro round_mag_nonneg) simp
    moreover have "0 \<le> round_mag (- x)" using xneg by (intro round_mag_nonneg) simp
    ultimately show ?thesis using False xneg by (simp add: round64_def)
  qed
next
  case False
  then have x: "0 \<le> x" and y: "\<not> y < 0" using assms by simp_all
  have "round_mag x \<le> round_mag y" using x assms by (rule round_mag_mono)
  then show ?thesis using False y by (simp add: round64_def)
qed

lemma round64_idem:
  assumes "round64 x = Fin y"
  shows "round64 y = Fin y"
proof (cases "x < 0")
  case True
  then have y: "y = - round_mag (- x)" and m: "\<not> round_mag (- x) > max_float"
    using assms by (auto simp: round64_def split: if_splits)
  have nn: "0 \<le> round_mag (- x)" using True by (intro round_mag_nonneg) simp
  show ?thesis
  proof (cases "round_mag (- x) = 0")
    case True
    then show ?thesis using y by (simp add: round64_0)
  next
    case False
    then have "y < 0" using nn y by simp
    moreover have "round_mag (- y) = round_mag (- x)"
      unfolding y using True by (simp add: round_mag_idem)
    ultimately show ?thesis using m y by (simp add: round64_def)
  qed
next
  case False
  then have y: "y = round_mag x" and m: "\<not> round_mag x > max_float"
    using assms by (auto simp: round64_def split: if_splits)
  have "0 \<le> y" unfolding y using False by (intro round_mag_nonneg) simp
  moreover have "round_mag y = y" unfolding y using False by (intro round_mag_idem) simp
  ultimately show ?thesis using m y by (simp add: round64_def)
qed

lemma is_f64_round64: "is_f64 (round64 x)"
  by (cases "round64 x") (simp_all add: round64_idem)

lemma round64_dyadic:
  assumes "\<bar>n\<bar> \<le> 2 ^ 53" and "- 1074 \<le> e" and "\<bar>of_int n * 2 powi e\<bar> \<le> max_float"
  shows "round64 (of_int n * 2 powi e) = Fin (of_int n * 2 powi e)"
proof (cases "n < 0")
  case True
  have "round_mag (of_int (- n) * 2 powi e) = of_int (- n) * 2 powi e"
    using True assms(1,2) by (intro round_mag_exact) simp_all
  moreover have "real_of_int n * 2 powi e < 0"
    using True by (simp add: mult_neg_pos)
  ultimately show ?thesis using assms(3) by (simp add: round64_def)
next
  case False
  have "round_mag (of_int n * 2 powi e) = of_int n * 2 powi e"
    using False assms(1,2) by (intro round_mag_exact) simp_all
  moreover have "\<not> real_of_int n * 2 powi e < 0"
    using False by (simp add: not_less)
  ultimately show ?thesis using assms(3) by (simp add: round64_def)
qed

lemma max_float_ge: "2 ^ 53 \<le> max_float"
  by (simp add: max_float_def)

lemma round64_int:
  assumes "\<bar>n\<bar> \<le> 2 ^ 53"
  shows "round64 (of_int n) = Fin (of_int n)"
proof -
  have "\<bar>real_of_int n\<bar> \<le> real_of_int (2 ^ 53)"
    using assms by (simp only: of_int_abs [symmetric] of_int_le_iff)
  then have "\<bar>real_of_int n * 2 powi 0\<bar> \<le> max_float"
    using max_float_ge by simp
  then show ?thesis
    using round64_dyadic [of n 0] assms by simp
qed

lemma round64_1: "round64 1 = Fin 1"
  using round64_int [of 1] by simp

lemma round64_nonneg: "0 \<le> x \<Longrightarrow> f64_le (Fin 0) (round64 x)"
  using round64_mono [of 0 x] by (simp add: round64_0)

lemma round64_le_1: "x \<le> 1 \<Longrightarrow> f64_le (round64 x) (Fin 1)"
  using round64_mono [of x 1] by (simp add: round64_1)

lemma round64_grid:
  assumes "round64 x = Fin x"
  shows "\<exists>k::int. x = of_int k * 2 powi (- 1074)"
proof -
  have grid: "\<exists>k::int. round_mag a = of_int k * 2 powi (- 1074)" for a
  proof -
    define d where "d = nat (qexp a + 1074)"
    have "qexp a = - 1074 + int d" using qexp_ge [of a] by (simp add: d_def)
    then have "(2::real) powi qexp a = 2 powi (- 1074) * 2 ^ d" by (rule powi_split)
    then have "round_mag a = of_int (rne (a / 2 powi qexp a) * 2 ^ d) * 2 powi (- 1074)"
      by (simp add: round_mag_def)
    then show ?thesis by blast
  qed
  show ?thesis
  proof (cases "x < 0")
    case True
    then have "x = - round_mag (- x)" using assms by (auto simp: round64_def split: if_splits)
    moreover obtain k where "round_mag (- x) = of_int k * 2 powi (- 1074)" using grid by blast
    ultimately have "x = of_int (- k) * 2 powi (- 1074)" by simp
    then show ?thesis by blast
  next
    case False
    then have "x = round_mag x" using assms by (auto simp: round64_def split: if_splits)
    then show ?thesis using grid [of x] by simp
  qed
qed

lemma round64_diff_pos:
  assumes a: "round64 a = Fin a" and b: "round64 b = Fin b" and lt: "a < b"
  shows "round64 (b - a) = PInf \<or> (\<exists>d. round64 (b - a) = Fin d \<and> 0 < d)"
proof -
  obtain k where k: "a = of_int k * 2 powi (- 1074)" using round64_grid [OF a] by blast
  obtain l where l: "b = of_int l * 2 powi (- 1074)" using round64_grid [OF b] by blast
  have "real_of_int k < real_of_int l"
    using lt unfolding k l by (simp add: mult_less_cancel_right)
  then have "k + 1 \<le> l" by simp
  then have "real_of_int (k + 1) \<le> real_of_int l" by (simp only: of_int_le_iff)
  then have "real_of_int 1 * 2 powi (- 1074) \<le> (real_of_int l - real_of_int k) * 2 powi (- 1074)"
    by (intro mult_right_mono) simp_all
  then have ge: "real_of_int 1 * 2 powi (- 1074) \<le> b - a"
    unfolding k l by (simp add: algebra_simps)
  have "round_mag (real_of_int 1 * 2 powi (- 1074)) = real_of_int 1 * 2 powi (- 1074)"
    by (intro round_mag_exact) simp_all
  moreover have "round_mag (real_of_int 1 * 2 powi (- 1074)) \<le> round_mag (b - a)"
    using ge by (intro round_mag_mono) simp_all
  ultimately have "0 < round_mag (b - a)"
    using two_powi_pos [of "- 1074"] by simp
  then show ?thesis using lt by (simp add: round64_def)
qed


lemma rne_eqI:
  assumes "of_int m - 1/2 < r" and "r < of_int m + 1/2"
  shows "rne r = m"
proof (cases "of_int m \<le> r")
  case True
  then have "\<lfloor>r\<rfloor> = m" using assms(2) by (intro floor_unique) simp_all
  then show ?thesis using assms(2) by (simp add: rne_def Let_def)
next
  case False
  then have "\<lfloor>r\<rfloor> = m - 1" using assms(1) by (intro floor_unique) simp_all
  then show ?thesis using assms(1) by (simp add: rne_def Let_def)
qed

lemma round64_near:
  assumes "0 \<le> a" and "- 1074 \<le> e" and "e = - 1074 \<or> 2 powi (e + 52) \<le> a"
    and "a < 2 powi (e + 53)"
    and "(of_int m - 1/2) * 2 powi e < a" and "a < (of_int m + 1/2) * 2 powi e"
    and "of_int m * 2 powi e \<le> max_float"
  shows "round64 a = Fin (of_int m * 2 powi e)"
proof -
  have q: "qexp a = e" using assms(1,2,4,3) by (rule qexp_eq)
  have "of_int m - 1/2 < a / 2 powi e" and "a / 2 powi e < of_int m + 1/2"
    using assms(5,6) by (simp_all add: pos_less_divide_eq pos_divide_less_eq)
  then have "rne (a / 2 powi e) = m" by (rule rne_eqI)
  then have "round_mag a = of_int m * 2 powi e" by (simp add: round_mag_def q)
  then show ?thesis using assms(1,7) by (simp add: round64_def)
qed

lemma rne_tie_even:
  assumes "even m"
  shows "rne (of_int m + 1/2) = m"
proof -
  have "\<lfloor>real_of_int m + 1/2\<rfloor> = m" by (intro floor_unique) simp_all
  then show ?thesis using assms by (simp add: rne_def Let_def)
qed

lemma round64_tie_even:
  assumes "0 \<le> a" and "- 1074 \<le> e" and "e = - 1074 \<or> 2 powi (e + 52) \<le> a"
    and "a < 2 powi (e + 53)"
    and "a = (of_int m + 1/2) * 2 powi e" and "even m"
    and "of_int m * 2 powi e \<le> max_float"
  shows "round64 a = Fin (of_int m * 2 powi e)"
proof -
  have q: "qexp a = e" using assms(1,2,4,3) by (rule qexp_eq)
  have "a / 2 powi e = of_int m + 1/2"
    unfolding assms(5) by simp
  then have "rne (a / 2 powi e) = m" using rne_tie_even [OF assms(6)] by simp
  then have "round_mag a = of_int m * 2 powi e" by (simp add: round_mag_def q)
  then show ?thesis using assms(1,7) by (simp add: round64_def)
qed

lemma lit_0083: "round64 0.083 = Fin (5980780305148019 / 2 ^ 56)"
  using round64_near [of "0.083" "- 56" 5980780305148019] by (simp add: max_float_def)

lemma lit_0292: "round64 0.292 = Fin (5260204364768739 / 2 ^ 54)"
  using round64_near [of "0.292" "- 54" 5260204364768739] by (simp add: max_float_def)

lemma sum_code: "fadd64 (fadd64 (round64 0.083) (round64 0.083)) (round64 0.292)
   = Fin (2062648629335687 / 2 ^ 52)"
proof -
  have 1: "round64 (5980780305148019 / 2 ^ 56 + 5980780305148019 / 2 ^ 56)
            = Fin (5980780305148019 / 2 ^ 55)"
    using round64_near [of "5980780305148019 / 2 ^ 56 + 5980780305148019 / 2 ^ 56" "- 55"
        5980780305148019] by (simp add: max_float_def)
  have 2: "round64 (5980780305148019 / 2 ^ 55 + 5260204364768739 / 2 ^ 54)
            = Fin (2062648629335687 / 2 ^ 52)"
    using round64_tie_even [of "5980780305148019 / 2 ^ 55 + 5260204364768739 / 2 ^ 54" "- 54"
        8250594517342748] by (simp add: max_float_def)
  show ?thesis by (simp only: lit_0083 lit_0292 fadd64.simps 1 2)
qed

lemma sum_spec: "fadd64 (fadd64 (round64 0.292) (round64 0.083)) (round64 0.083)
   = Fin (8250594517342749 / 2 ^ 54)"
proof -
  have 1: "round64 (5260204364768739 / 2 ^ 54 + 5980780305148019 / 2 ^ 56)
            = Fin (3 / 8)"
    using round64_near [of "5260204364768739 / 2 ^ 54 + 5980780305148019 / 2 ^ 56" "- 54"
        6755399441055744] by (simp add: max_float_def)
  have 2: "round64 (3 / 8 + 5980780305148019 / 2 ^ 56)
            = Fin (8250594517342749 / 2 ^ 54)"
    using round64_near [of "3 / 8 + 5980780305148019 / 2 ^ 56" "- 54"
        8250594517342749] by (simp add: max_float_def)
  show ?thesis by (simp only: lit_0083 lit_0292 fadd64.simps 1 2)
qed

section \<open>Properties of the shale-volume column\<close>

lemma present_set: "set (present cs) = {v. Some v \<in> set cs}"
  by (induction cs rule: present.induct) auto

lemma fold_min_Min: "fold min vs (v::real) = Min (set (v # vs))"
  by (simp only: Min.set_eq_fold)

lemma fold_max_Max: "fold max vs (v::real) = Max (set (v # vs))"
  by (simp only: Max.set_eq_fold)

lemma series_min_Some:
  assumes "series_min cs = Some m"
  shows "Some m \<in> set cs" and "\<And>v. Some v \<in> set cs \<Longrightarrow> m \<le> v"
proof -
  from assms obtain v vs where p: "present cs = v # vs" and m: "m = Min (set (v # vs))"
    by (auto simp: series_min_def fold_min_Min split: list.splits)
  have "m \<in> set (v # vs)" unfolding m by (rule Min_in) simp_all
  then show "Some m \<in> set cs" using p present_set [of cs] by auto
  fix w assume "Some w \<in> set cs"
  then have "w \<in> set (v # vs)" using p present_set [of cs] by auto
  then show "m \<le> w" unfolding m by (intro Min_le) simp_all
qed

lemma series_max_Some:
  assumes "series_max cs = Some m"
  shows "Some m \<in> set cs" and "\<And>v. Some v \<in> set cs \<Longrightarrow> v \<le> m"
proof -
  from assms obtain v vs where p: "present cs = v # vs" and m: "m = Max (set (v # vs))"
    by (auto simp: series_max_def fold_max_Max split: list.splits)
  have "m \<in> set (v # vs)" unfolding m by (rule Max_in) simp_all
  then show "Some m \<in> set cs" using p present_set [of cs] by auto
  fix w assume "Some w \<in> set cs"
  then have "w \<in> set (v # vs)" using p present_set [of cs] by auto
  then show "w \<le> m" unfolding m by (intro Max_ge) simp_all
qed


lemma Vsh_cell_degenerate:
  assumes eq: "series_max (map gr t) = series_min (map gr t)" and r: "r \<in> set t"
  shows "fdiv64 (fsub64 (to_f64 (gr r)) (to_f64 (series_min (map gr t))))
                (fsub64 (to_f64 (series_max (map gr t))) (to_f64 (series_min (map gr t)))) = NaN"
proof (cases "series_min (map gr t)")
  case None
  then show ?thesis by (cases "gr r") simp_all
next
  case (Some m)
  show ?thesis
  proof (cases "gr r")
    case None
    then show ?thesis by simp
  next
    case (Some v)
    then have mem: "Some v \<in> set (map gr t)" using r by force
    have "m \<le> v" using series_min_Some(2) [OF \<open>series_min (map gr t) = Some m\<close> mem] .
    moreover have "v \<le> m"
      using series_max_Some(2) [of "map gr t" m v] eq \<open>series_min (map gr t) = Some m\<close> mem
      by simp
    ultimately have "v = m" by simp
    then show ?thesis
      using Some eq \<open>series_min (map gr t) = Some m\<close> by (simp add: round64_0)
  qed
qed

text \<open>
  C10. When the maximum of the GR column equals its minimum (a one-row table, a constant
  column), the normalisation divides by zero, yet the step raises nothing and the
  column is produced: every row is kept and its Vsh is NaN.
\<close>

theorem add_Vsh_degenerate:
  assumes "series_max (map gr t) = series_min (map gr t)"
  shows "add_Vsh t = Inr (map (\<lambda>r. \<lparr>cols = r, Vsh = NaN\<rparr>) t)"
proof -
  have "map (\<lambda>r. \<lparr>cols = r,
                  Vsh = fdiv64 (fsub64 (to_f64 (gr r)) (to_f64 (series_min (map gr t))))
                    (fsub64 (to_f64 (series_max (map gr t)))
                       (to_f64 (series_min (map gr t))))\<rparr>) t
        = map (\<lambda>r. \<lparr>cols = r, Vsh = NaN\<rparr>) t"
    by (rule map_cong [OF refl]) (simp only: Vsh_cell_degenerate [OF assms])
  then show ?thesis by (simp only: add_Vsh_def Let_def)
qed

theorem add_Vsh_degenerate_witness:
  "series_max (map gr [sample_row 1 (Some 5) (Some 50)])
     = series_min (map gr [sample_row 1 (Some 5) (Some 50)])
   \<and> add_Vsh [sample_row 1 (Some 5) (Some 50)]
     = Inr [\<lparr>cols = sample_row 1 (Some 5) (Some 50), Vsh = NaN\<rparr>]"
proof -
  have h: "series_max (map gr [sample_row 1 (Some 5) (Some 50)])
     = series_min (map gr [sample_row 1 (Some 5) (Some 50)])"
    by (simp add: series_max_def series_min_def sample_row_def)
  show ?thesis using h add_Vsh_degenerate [OF h] by simp
qed

lemma series_min_max_distinct:
  assumes "series_max cs \<noteq> series_min cs"
  obtains lo hi where "series_min cs = Some lo" and "series_max cs = Some hi" and "lo < hi"
proof -
  have "present cs \<noteq> []"
    using assms by (auto simp: series_min_def series_max_def)
  then obtain v vs where "present cs = v # vs"
    by (cases "present cs") auto
  then obtain lo hi where lo: "series_min cs = Some lo" and hi: "series_max cs = Some hi"
    by (simp add: series_min_def series_max_def)
  have "lo \<le> hi" using series_min_Some(2) [OF lo series_max_Some(1) [OF hi]] .
  moreover have "lo \<noteq> hi" using assms lo hi by simp
  ultimately have "lo < hi" by simp
  with lo hi show thesis by (rule that)
qed


lemma f64_le_Fin_cases:
  assumes "f64_le (Fin a) x" and "f64_le x (Fin b)"
  obtains y where "x = Fin y" and "a \<le> y" and "y \<le> b"
  using assms by (cases x) simp_all

lemma Vsh_cell_min:
  assumes lo: "round64 lo = Fin lo" and hi: "round64 hi = Fin hi" and lt: "lo < hi"
  shows "fdiv64 (fsub64 (Fin lo) (Fin lo)) (fsub64 (Fin hi) (Fin lo)) = Fin 0"
  using round64_diff_pos [OF lo hi lt] by (auto simp: round64_0)

lemma Vsh_cell_unit:
  assumes D: "fsub64 (Fin hi) (Fin lo) = Fin d" and d: "0 < d"
    and lov: "lo \<le> v" and vhi: "v \<le> hi"
  shows "\<exists>x. fdiv64 (fsub64 (Fin v) (Fin lo)) (fsub64 (Fin hi) (Fin lo)) = Fin x
           \<and> 0 \<le> x \<and> x \<le> 1"
proof -
  have "f64_le (Fin 0) (round64 (v - lo))" using lov by (intro round64_nonneg) simp
  moreover have "f64_le (round64 (v - lo)) (round64 (hi - lo))"
    using vhi by (intro round64_mono) simp
  then have "f64_le (round64 (v - lo)) (Fin d)" using D by simp
  ultimately obtain a where a: "round64 (v - lo) = Fin a" and a0: "0 \<le> a" and ad: "a \<le> d"
    by (rule f64_le_Fin_cases)
  have q: "0 \<le> a / d" "a / d \<le> 1" using a0 ad d by simp_all
  have "f64_le (Fin 0) (round64 (a / d))" using q(1) by (rule round64_nonneg)
  moreover have "f64_le (round64 (a / d)) (Fin 1)" using q(2) by (rule round64_le_1)
  ultimately obtain x where "round64 (a / d) = Fin x" and "0 \<le> x" and "x \<le> 1"
    by (rule f64_le_Fin_cases)
  then show ?thesis using a D d by simp
qed

lemma Vsh_cell_max:
  assumes D: "fsub64 (Fin hi) (Fin lo) = Fin d" and d: "0 < d"
  shows "fdiv64 (fsub64 (Fin hi) (Fin lo)) (fsub64 (Fin hi) (Fin lo)) = Fin 1"
  unfolding D using d by (simp add: round64_1)

text \<open>
  C4, as the code has it. Let the GR values be float64 numbers and the maximum of the
  column differ from its minimum. Then every row holding the minimum gets the Vsh
  value 0 exactly (there is such a row, and there are several when the minimum
  repeats), and a row whose GR is NaN gets NaN. When the float64 difference of
  maximum and minimum does not overflow, every row with a GR value gets a Vsh in [0,1]
  inclusive and every row holding the maximum gets 1 exactly (there is such a row).
  Nothing makes the row with 0 or the row with 1 unique, and rounding may give 0 or 1
  to further rows.
\<close>

theorem add_Vsh_unit_interval:
  assumes ne: "series_max (map gr t) \<noteq> series_min (map gr t)"
    and fl: "\<forall>r\<in>set t. is_f64 (to_f64 (gr r))"
  shows "\<exists>out lo hi. add_Vsh t = Inr out \<and> map cols out = t
           \<and> series_min (map gr t) = Some lo \<and> series_max (map gr t) = Some hi \<and> lo < hi
           \<and> (\<forall>r\<in>set out. gr (cols r) = None \<longrightarrow> Vsh r = NaN)
           \<and> (\<forall>r\<in>set out. gr (cols r) = Some lo \<longrightarrow> Vsh r = Fin 0)
           \<and> (\<exists>r\<in>set out. gr (cols r) = Some lo)
           \<and> (\<exists>r\<in>set out. gr (cols r) = Some hi)
           \<and> (fsub64 (Fin hi) (Fin lo) \<noteq> PInf \<longrightarrow>
                (\<forall>r\<in>set out. \<forall>v. gr (cols r) = Some v \<longrightarrow>
                    (\<exists>x. Vsh r = Fin x \<and> 0 \<le> x \<and> x \<le> 1))
                \<and> (\<forall>r\<in>set out. gr (cols r) = Some hi \<longrightarrow> Vsh r = Fin 1))"
proof -
  from ne obtain lo hi where lo: "series_min (map gr t) = Some lo"
    and hi: "series_max (map gr t) = Some hi" and lt: "lo < hi"
    by (rule series_min_max_distinct)
  define cell where
    "cell r = fdiv64 (fsub64 (to_f64 (gr r)) (Fin lo)) (fsub64 (Fin hi) (Fin lo))"
    for r :: row
  define out where "out = map (\<lambda>r. \<lparr>cols = r, Vsh = cell r\<rparr>) t"
  have run: "add_Vsh t = Inr out"
    by (simp add: add_Vsh_def Let_def lo hi out_def cell_def)
  have rows: "map cols out = t"
    by (simp add: out_def comp_def)
  obtain a where a: "a \<in> set t" "gr a = Some lo"
    using series_min_Some(1) [OF lo] by auto
  obtain b where b: "b \<in> set t" "gr b = Some hi"
    using series_max_Some(1) [OF hi] by auto
  have flo: "round64 lo = Fin lo" using fl a by force
  have fhi: "round64 hi = Fin hi" using fl b by force
  have outD: "\<exists>q\<in>set t. cols r = q \<and> Vsh r = cell q" if "r \<in> set out" for r
    using that by (auto simp: out_def)
  have nan: "\<forall>r\<in>set out. gr (cols r) = None \<longrightarrow> Vsh r = NaN"
    using outD by (fastforce simp: cell_def)
  have zero: "\<forall>r\<in>set out. gr (cols r) = Some lo \<longrightarrow> Vsh r = Fin 0"
    using outD Vsh_cell_min [OF flo fhi lt] by (fastforce simp: cell_def)
  have exlo: "\<exists>r\<in>set out. gr (cols r) = Some lo"
    using a by (force simp: out_def)
  have exhi: "\<exists>r\<in>set out. gr (cols r) = Some hi"
    using b by (force simp: out_def)
  have fin: "(\<forall>r\<in>set out. \<forall>v. gr (cols r) = Some v \<longrightarrow>
                    (\<exists>x. Vsh r = Fin x \<and> 0 \<le> x \<and> x \<le> 1))
                \<and> (\<forall>r\<in>set out. gr (cols r) = Some hi \<longrightarrow> Vsh r = Fin 1)"
    if "fsub64 (Fin hi) (Fin lo) \<noteq> PInf"
  proof -
    from round64_diff_pos [OF flo fhi lt] that
    obtain d where D: "fsub64 (Fin hi) (Fin lo) = Fin d" and d: "0 < d"
      by auto
    have unit: "\<exists>x. Vsh r = Fin x \<and> 0 \<le> x \<and> x \<le> 1"
      if r: "r \<in> set out" and v: "gr (cols r) = Some v" for r v
    proof -
      from outD [OF r] obtain q where q: "q \<in> set t" "cols r = q" "Vsh r = cell q"
        by blast
      have mem: "Some v \<in> set (map gr t)" using q v by force
      have "lo \<le> v" using series_min_Some(2) [OF lo mem] .
      moreover have "v \<le> hi" using series_max_Some(2) [OF hi mem] .
      ultimately show ?thesis
        using Vsh_cell_unit [OF D d, of v] q v by (simp add: cell_def)
    qed
    have one: "Vsh r = Fin 1" if r: "r \<in> set out" and v: "gr (cols r) = Some hi" for r
    proof -
      from outD [OF r] obtain q where q: "q \<in> set t" "cols r = q" "Vsh r = cell q"
        by blast
      then show ?thesis using Vsh_cell_max [OF D d] v by (simp add: cell_def)
    qed
    from unit one show ?thesis by blast
  qed
  from run rows lo hi lt nan zero exlo exhi fin show ?thesis by blast
qed

lemma round64_half: "round64 (1 / 2) = Fin (1 / 2)"
  using round64_dyadic [of 1 "- 1"] by (simp add: max_float_def)

lemma round64_numeral: "numeral n \<le> (2::int) ^ 53 \<Longrightarrow> round64 (numeral n) = Fin (numeral n)"
  using round64_int [of "numeral n"] by simp

theorem add_Vsh_unit_interval_witness:
  "series_max (map gr [sample_row 1 (Some 20) (Some 50), sample_row 2 (Some 80) (Some 50),
                        sample_row 3 (Some 50) (Some 50)])
     \<noteq> series_min (map gr [sample_row 1 (Some 20) (Some 50), sample_row 2 (Some 80) (Some 50),
                        sample_row 3 (Some 50) (Some 50)])
   \<and> (\<exists>out. add_Vsh [sample_row 1 (Some 20) (Some 50), sample_row 2 (Some 80) (Some 50),
                        sample_row 3 (Some 50) (Some 50)] = Inr out
            \<and> map Vsh out = [Fin 0, Fin 1, Fin (1/2)])"
proof -
  let ?t = "[sample_row 1 (Some 20) (Some 50), sample_row 2 (Some 80) (Some 50),
             sample_row 3 (Some 50) (Some 50)]"
  have h: "series_max (map gr ?t) \<noteq> series_min (map gr ?t)"
    by (simp add: series_max_def series_min_def sample_row_def)
  have f: "\<forall>r\<in>set ?t. is_f64 (to_f64 (gr r))"
    by (simp add: sample_row_def round64_numeral)
  from add_Vsh_unit_interval [OF h f] obtain out where out: "add_Vsh ?t = Inr out"
    by blast
  have "add_Vsh ?t = Inr [\<lparr>cols = sample_row 1 (Some 20) (Some 50), Vsh = Fin 0\<rparr>,
      \<lparr>cols = sample_row 2 (Some 80) (Some 50), Vsh = Fin 1\<rparr>,
      \<lparr>cols = sample_row 3 (Some 50) (Some 50), Vsh = Fin (1/2)\<rparr>]"
    by (simp add: add_Vsh_def Let_def series_max_def series_min_def sample_row_def
        round64_0 round64_1 round64_half round64_numeral)
  with out have "map Vsh out = [Fin 0, Fin 1, Fin (1/2)]"
    by auto
  with out have "\<exists>out. add_Vsh ?t = Inr out \<and> map Vsh out = [Fin 0, Fin 1, Fin (1/2)]"
    by (intro exI [of _ out] conjI)
  with h show ?thesis by (rule conjI)
qed

text \<open>
  The claim C4 as stated fails where the minimum repeats: of three rows with GR 10,
  10 and 30, two attain 0.
\<close>

theorem add_Vsh_two_rows_attain_zero:
  "add_Vsh [sample_row 1 (Some 10) (Some 50), sample_row 2 (Some 10) (Some 50),
            sample_row 3 (Some 30) (Some 50)]
     = Inr [\<lparr>cols = sample_row 1 (Some 10) (Some 50), Vsh = Fin 0\<rparr>,
            \<lparr>cols = sample_row 2 (Some 10) (Some 50), Vsh = Fin 0\<rparr>,
            \<lparr>cols = sample_row 3 (Some 30) (Some 50), Vsh = Fin 1\<rparr>]
   \<and> length (filter (\<lambda>r. Vsh r = Fin 0)
        [\<lparr>cols = sample_row 1 (Some 10) (Some 50), Vsh = Fin 0\<rparr>,
         \<lparr>cols = sample_row 2 (Some 10) (Some 50), Vsh = Fin 0\<rparr>,
         \<lparr>cols = sample_row 3 (Some 30) (Some 50), Vsh = Fin 1\<rparr>]) = 2"
  by (simp add: add_Vsh_def Let_def series_max_def series_min_def sample_row_def
      round64_0 round64_1 round64_numeral)

text \<open>
  C5, as the code has it. The step raises on no table and keeps every row; on a table
  of zero rows minimum and maximum are NaN and the result is the zero-row table with
  its (empty) Vsh column.
\<close>

theorem add_Vsh_never_raises:
  "(\<exists>out. add_Vsh t = Inr out \<and> map cols out = t)
   \<and> series_min (map gr []) = None \<and> series_max (map gr []) = None
   \<and> add_Vsh [] = Inr []"
  by (simp add: add_Vsh_def Let_def comp_def series_min_def series_max_def)

text \<open>The claim C5 as stated fails: on the zero-row table no error is the result.\<close>

theorem add_Vsh_empty_no_error:
  "\<not> (\<exists>e. add_Vsh [] = Inl e)"
  by (simp add: add_Vsh_def Let_def)


section \<open>Properties of the fraction loop and the polygons\<close>

lemma for_range_append:
  "for_range body (xs @ ys) s = bind_e (for_range body xs s) (for_range body ys)"
  by (induction xs arbitrary: s) (simp_all add: bind_e_def split: sum.splits)

lemma loop_body_ok:
  assumes "i < length series1" "i < length series2" "i < length series3" "i < length series4"
    and "i < length depths"
    and "i < length (fraction1 f)" "i < length (fraction2 f)"
    and "i < length (fraction3 f)" "i < length (fraction4 f)"
  shows "loop_body series1 series2 series3 series4 depths i f =
           Inr \<lparr>fraction1 = (fraction1 f)[i := [series1 ! i, depths ! i]],
                fraction2 = (fraction2 f)[i := [fadd64 (series2 ! i) (series1 ! i), depths ! i]],
                fraction3 = (fraction3 f)[i := [fadd64 (fadd64 (series3 ! i) (series2 ! i)) (series1 ! i), depths ! i]],
                fraction4 = (fraction4 f)[i := [fadd64 (fadd64 (fadd64 (series4 ! i) (series3 ! i)) (series2 ! i)) (series1 ! i),
                                               depths ! i]]\<rparr>"
  using assms by (simp add: loop_body_def get_item_def set_item_def bind_e_def)

lemma loop_body_fail:
  assumes "\<not> (i < length series1 \<and> i < length series2 \<and> i < length series3 \<and> i < length series4)"
  shows "loop_body series1 series2 series3 series4 depths i f = Inl IndexError"
proof -
  have any: "x = Inl IndexError" if "\<And>y. x \<noteq> Inr y" for x :: "error + fracs"
    using that by (cases x) (auto intro: error.exhaust)
  show ?thesis
    by (rule any) (use assms in \<open>auto simp: loop_body_def get_item_def set_item_def bind_e_def
        split: if_splits sum.splits\<close>)
qed

lemma length_filled: "k \<le> n \<Longrightarrow> length (filled n k p) = n"
  by (simp add: filled_def)

lemma filled_update:
  assumes "k < n" and "v = p k"
  shows "(filled n k p)[k := v] = filled n (Suc k) p"
proof -
  from assms(1) obtain m where m: "n - k = Suc m" and m': "n - Suc k = m"
    by (cases "n - k") auto
  show ?thesis
    by (simp add: filled_def m m' list_update_append assms(2))
qed

lemma filled_start: "filled n 0 p = replicate n []"
  by (simp add: filled_def)

lemma filled_full: "filled n n p = map p [0..<n]"
  by (simp add: filled_def)

lemma for_range_prefix:
  assumes "k \<le> length depths"
    and "k \<le> length series1" "k \<le> length series2" "k \<le> length series3" "k \<le> length series4"
  shows "for_range (loop_body series1 series2 series3 series4 depths) [0..<k]
           \<lparr>fraction1 = replicate (length depths) [], fraction2 = replicate (length depths) [],
            fraction3 = replicate (length depths) [], fraction4 = replicate (length depths) []\<rparr>
         = Inr \<lparr>fraction1 = filled (length depths) k (\<lambda>i. [series1 ! i, depths ! i]),
                fraction2 = filled (length depths) k (\<lambda>i. [fadd64 (series2 ! i) (series1 ! i), depths ! i]),
                fraction3 = filled (length depths) k
                              (\<lambda>i. [fadd64 (fadd64 (series3 ! i) (series2 ! i)) (series1 ! i), depths ! i]),
                fraction4 = filled (length depths) k
                              (\<lambda>i. [fadd64 (fadd64 (fadd64 (series4 ! i) (series3 ! i)) (series2 ! i)) (series1 ! i),
                                    depths ! i])\<rparr>"
  using assms
proof (induction k)
  case 0
  then show ?case by (simp add: filled_start)
next
  case (Suc k)
  have k: "k < length depths" "k < length series1" "k < length series2" "k < length series3"
    "k < length series4"
    using Suc.prems by simp_all
  have prev: "for_range (loop_body series1 series2 series3 series4 depths) [0..<k]
           \<lparr>fraction1 = replicate (length depths) [], fraction2 = replicate (length depths) [],
            fraction3 = replicate (length depths) [], fraction4 = replicate (length depths) []\<rparr>
         = Inr \<lparr>fraction1 = filled (length depths) k (\<lambda>i. [series1 ! i, depths ! i]),
                fraction2 = filled (length depths) k (\<lambda>i. [fadd64 (series2 ! i) (series1 ! i), depths ! i]),
                fraction3 = filled (length depths) k
                              (\<lambda>i. [fadd64 (fadd64 (series3 ! i) (series2 ! i)) (series1 ! i), depths ! i]),
                fraction4 = filled (length depths) k
                              (\<lambda>i. [fadd64 (fadd64 (fadd64 (series4 ! i) (series3 ! i)) (series2 ! i)) (series1 ! i),
                                    depths ! i])\<rparr>"
    using Suc.IH k by simp
  have split: "[0..<Suc k] = [0..<k] @ [k]" by simp
  show ?case
    unfolding split for_range_append prev
    using k
    by (simp add: bind_e_def loop_body_ok length_filled filled_update)
qed

lemma fraction_loop_ok:
  assumes "length depths \<le> length series1" "length depths \<le> length series2"
    and "length depths \<le> length series3" "length depths \<le> length series4"
  shows "fraction_loop series1 series2 series3 series4 depths =
           Inr \<lparr>fraction1 = points (cumulative1 series1) depths,
                fraction2 = points (cumulative2 series1 series2) depths,
                fraction3 = points (cumulative3 series1 series2 series3) depths,
                fraction4 = points (cumulative4 series1 series2 series3 series4) depths\<rparr>"
  unfolding fraction_loop_def points_def cumulative1_def cumulative2_def cumulative3_def
    cumulative4_def
  using for_range_prefix [of "length depths" depths series1 series2 series3 series4] assms
  by (simp add: filled_full)

lemma fraction_loop_fail:
  assumes "length series1 < length depths \<or> length series2 < length depths
           \<or> length series3 < length depths \<or> length series4 < length depths"
  shows "fraction_loop series1 series2 series3 series4 depths = Inl IndexError"
proof -
  define m where "m = min (min (length series1) (length series2))
                          (min (length series3) (length series4))"
  have m: "m < length depths" "m \<le> length series1" "m \<le> length series2" "m \<le> length series3"
    "m \<le> length series4"
    using assms by (auto simp: m_def)
  have short: "\<not> (m < length series1 \<and> m < length series2 \<and> m < length series3
                   \<and> m < length series4)"
    by (auto simp: m_def min_def)
  have split: "[0..<length depths] = [0..<m] @ m # [Suc m..<length depths]"
    using m(1) by (metis less_imp_le_nat upt_add_eq_append upt_conv_Cons zero_le le_add_diff_inverse)
  have "for_range (loop_body series1 series2 series3 series4 depths) [0..<m]
           \<lparr>fraction1 = replicate (length depths) [], fraction2 = replicate (length depths) [],
            fraction3 = replicate (length depths) [], fraction4 = replicate (length depths) []\<rparr>
        = Inr \<lparr>fraction1 = filled (length depths) m (\<lambda>i. [series1 ! i, depths ! i]),
                fraction2 = filled (length depths) m (\<lambda>i. [fadd64 (series2 ! i) (series1 ! i), depths ! i]),
                fraction3 = filled (length depths) m
                              (\<lambda>i. [fadd64 (fadd64 (series3 ! i) (series2 ! i)) (series1 ! i), depths ! i]),
                fraction4 = filled (length depths) m
                              (\<lambda>i. [fadd64 (fadd64 (fadd64 (series4 ! i) (series3 ! i)) (series2 ! i)) (series1 ! i),
                                    depths ! i])\<rparr>"
    using m by (intro for_range_prefix) simp_all
  then show ?thesis
    unfolding fraction_loop_def split for_range_append
    by (simp add: bind_e_def loop_body_fail [OF short])
qed


lemma upt4: "[0..<4] = [0, 1, 2, 3]"
  by (simp add: upt_rec)

lemma upt5: "[0..<5] = [0, 1, 2, 3, 4]"
  by (simp add: upt_rec)

lemma polygons_ok:
  assumes "length depths \<le> length series1" "length depths \<le> length series2"
    and "length depths \<le> length series3" "length depths \<le> length series4"
  shows "polygons series1 series2 series3 series4 depths min_depth max_depth =
           Inr [[[[Fin 0, max_depth], [Fin 0, min_depth]] @ points (cumulative1 series1) depths],
                [points (cumulative1 series1) depths
                   @ rev (points (cumulative2 series1 series2) depths)],
                [points (cumulative2 series1 series2) depths
                   @ rev (points (cumulative3 series1 series2 series3) depths)],
                [points (cumulative3 series1 series2 series3) depths
                   @ rev (points (cumulative4 series1 series2 series3 series4) depths)]]"
  by (simp add: polygons_def bind_e_def fraction_loop_ok [OF assms] polygon1_def polygon2_def
      polygon3_def polygon4_def max_coord_def min_coord_def)

lemma polygons_fail:
  assumes "length series1 < length depths \<or> length series2 < length depths
           \<or> length series3 < length depths \<or> length series4 < length depths"
  shows "polygons series1 series2 series3 series4 depths min_depth max_depth = Inl IndexError"
  by (simp add: polygons_def bind_e_def fraction_loop_fail [OF assms])

lemma C_code_4:
  "C_code [series1, series2, series3, series4] 0 = cumulative1 series1"
  "C_code [series1, series2, series3, series4] (Suc 0) = cumulative2 series1 series2"
  "C_code [series1, series2, series3, series4] 2 = cumulative3 series1 series2 series3"
  "C_code [series1, series2, series3, series4] 3 = cumulative4 series1 series2 series3 series4"
proof -
  have u: "[0..<2] = [0, 1]" "[0..<3] = [0, 1, 2]"
    by (simp_all add: upt_rec)
  show "C_code [series1, series2, series3, series4] 0 = cumulative1 series1"
    by (rule ext) (simp add: C_code_def cumulative1_def)
  show "C_code [series1, series2, series3, series4] (Suc 0) = cumulative2 series1 series2"
    by (rule ext) (simp add: C_code_def cumulative2_def)
  show "C_code [series1, series2, series3, series4] 2 = cumulative3 series1 series2 series3"
    by (rule ext) (simp add: C_code_def cumulative3_def u)
  show "C_code [series1, series2, series3, series4] 3
          = cumulative4 series1 series2 series3 series4"
    by (rule ext) (simp add: C_code_def cumulative4_def u)
qed

text \<open>
  C2, as the code has it. The script fixes N = 4. For four component series of the
  common length of the depth sequence, the polygon of component \<open>k\<close> is, for \<open>k = 0\<close>,
  the anchors \<open>(0, maxDepth)\<close> and \<open>(0, minDepth)\<close> followed by \<open>V[0]\<close> and, for
  \<open>k > 0\<close>, the series \<open>V[k-1]\<close> followed by the reverse of \<open>V[k]\<close>, where \<open>V[k][i]\<close>
  pairs \<open>depths[i]\<close> with the float64 sum taken from component \<open>k\<close> down to component 0,
  \<open>cs[k][i] + cs[k-1][i] + ... + cs[0][i]\<close> added from the left.
\<close>

theorem polygons_code_order:
  assumes "length series1 = length depths" and "length series2 = length depths"
    and "length series3 = length depths" and "length series4 = length depths"
  shows "polygons series1 series2 series3 series4 depths min_depth max_depth
         = Inr (map (\<lambda>k. [polygon_of (C_code [series1, series2, series3, series4]) depths
                               min_depth max_depth k]) [0..<4])"
proof -
  have le: "length depths \<le> length series1" "length depths \<le> length series2"
    "length depths \<le> length series3" "length depths \<le> length series4"
    using assms by simp_all
  show ?thesis
    unfolding polygons_ok [OF le] upt4
    by (simp add: polygon_of_def V_of_def C_code_4)
qed

theorem polygons_code_order_witness:
  "polygons demo_series1 demo_series2 demo_series3 demo_series4 demo_depths (Fin 0) (Fin 4)
   = Inr (map (\<lambda>k. [polygon_of (C_code [demo_series1, demo_series2, demo_series3, demo_series4])
                        demo_depths (Fin 0) (Fin 4) k]) [0..<4])"
proof -
  have h: "length demo_series1 = length demo_depths" "length demo_series2 = length demo_depths"
    "length demo_series3 = length demo_depths" "length demo_series4 = length demo_depths"
    by (simp_all add: demo_series1_def demo_series2_def demo_series3_def demo_series4_def
        demo_depths_def)
  show ?thesis by (rule polygons_code_order [OF h])
qed

lemma points_demo: "points c demo_depths = [[c 0, Fin 0], [c 1, Fin 1], [c 2, Fin 2],
    [c 3, Fin 3], [c 4, Fin 4]]"
proof -
  have "[0..<length demo_depths] = [0, 1, 2, 3, 4]"
    by (simp add: demo_depths_def upt5)
  then show ?thesis by (simp add: points_def) (simp add: demo_depths_def)
qed

lemma nth4_of_5: "[a, b, c, d, e] ! 4 = e"
  by simp

lemma demo_code_sum:
  "cumulative3 demo_series1 demo_series2 demo_series3 4 = Fin (2062648629335687 / 2 ^ 52)"
  unfolding cumulative3_def demo_series1_def demo_series2_def demo_series3_def
  by (simp only: list.map nth4_of_5 sum_code)

lemma demo_spec_sum:
  "C_spec [demo_series1, demo_series2, demo_series3, demo_series4] 2 4
     = Fin (8250594517342749 / 2 ^ 54)"
proof -
  have u: "[1..<Suc 2] = [1, 2]" by (simp add: upt_rec)
  have "C_spec [demo_series1, demo_series2, demo_series3, demo_series4] 2 4
          = fadd64 (fadd64 (demo_series1 ! 4) (demo_series2 ! 4)) (demo_series3 ! 4)"
    unfolding C_spec_def u by simp
  also have "\<dots> = Fin (8250594517342749 / 2 ^ 54)"
    unfolding demo_series1_def demo_series2_def demo_series3_def
    by (simp only: list.map nth4_of_5 sum_spec)
  finally show ?thesis .
qed

lemma demo_lengths:
  "length demo_depths \<le> length demo_series1" "length demo_depths \<le> length demo_series2"
  "length demo_depths \<le> length demo_series3" "length demo_depths \<le> length demo_series4"
  by (simp_all add: demo_series1_def demo_series2_def demo_series3_def demo_series4_def
      demo_depths_def)

text \<open>
  The claim C2 as stated fails on the script's own series: at the last depth the third
  cumulative value is 0.083 + 0.083 + 0.292 in the script's order, which is the float64
  0.45799999999999996, while the sum from component 0 upward, 0.292 + 0.083 + 0.083, is
  the float64 0.458. So the third polygon is not the one built from the sums of the
  specification.
\<close>

theorem polygons_sum_order_counterexample:
  "length demo_series1 = length demo_depths \<and> length demo_series2 = length demo_depths
   \<and> length demo_series3 = length demo_depths \<and> length demo_series4 = length demo_depths
   \<and> C_code [demo_series1, demo_series2, demo_series3, demo_series4] 2 4
       = Fin (2062648629335687 / 2 ^ 52)
   \<and> C_spec [demo_series1, demo_series2, demo_series3, demo_series4] 2 4
       = Fin (8250594517342749 / 2 ^ 54)
   \<and> polygons demo_series1 demo_series2 demo_series3 demo_series4 demo_depths (Fin 0) (Fin 4)
       \<noteq> Inr (map (\<lambda>k. [polygon_of (C_spec [demo_series1, demo_series2, demo_series3,
                                                demo_series4])
                            demo_depths (Fin 0) (Fin 4) k]) [0..<4])"
proof -
  have len: "length demo_series1 = length demo_depths" "length demo_series2 = length demo_depths"
    "length demo_series3 = length demo_depths" "length demo_series4 = length demo_depths"
    by (simp_all add: demo_series1_def demo_series2_def demo_series3_def demo_series4_def
        demo_depths_def)
  have code: "C_code [demo_series1, demo_series2, demo_series3, demo_series4] 2 4
       = Fin (2062648629335687 / 2 ^ 52)"
    by (simp only: C_code_4 demo_code_sum)
  have spec: "C_spec [demo_series1, demo_series2, demo_series3, demo_series4] 2 4
       = Fin (8250594517342749 / 2 ^ 54)"
    by (rule demo_spec_sum)
  have ne: "polygons demo_series1 demo_series2 demo_series3 demo_series4 demo_depths
              (Fin 0) (Fin 4)
       \<noteq> Inr (map (\<lambda>k. [polygon_of (C_spec [demo_series1, demo_series2, demo_series3,
                                                demo_series4])
                            demo_depths (Fin 0) (Fin 4) k]) [0..<4])"
  proof
    assume "polygons demo_series1 demo_series2 demo_series3 demo_series4 demo_depths
              (Fin 0) (Fin 4)
       = Inr (map (\<lambda>k. [polygon_of (C_spec [demo_series1, demo_series2, demo_series3,
                                                demo_series4])
                            demo_depths (Fin 0) (Fin 4) k]) [0..<4])"
    then have "cumulative3 demo_series1 demo_series2 demo_series3 4
                 = C_spec [demo_series1, demo_series2, demo_series3, demo_series4] 2 4"
      unfolding polygons_ok [OF demo_lengths] upt4
      by (simp add: polygon_of_def V_of_def points_demo)
    then show False by (simp add: demo_code_sum demo_spec_sum)
  qed
  from len code spec ne show ?thesis by blast
qed

text \<open>
  C3, as the code has it. The script's builder always takes four series; it cannot be
  run with one. With \<^verbatim>\<open>[0.292, 0.333, 0.200, 0.458, 0.292]\<close> as \<^verbatim>\<open>series1\<close>, any three
  further series of at least five values, depths 0 to 4, minimum depth 0 and maximum
  depth 4, it builds four polygons, and the first, \<^verbatim>\<open>polygon1\<close>, holds exactly one
  vertex list: (0,4), (0,0), (0.292,0), (0.333,1), (0.200,2), (0.458,3), (0.292,4).
\<close>

theorem polygon1_example:
  assumes "5 \<le> length series2" and "5 \<le> length series3" and "5 \<le> length series4"
  shows "\<exists>f. fraction_loop (map round64 [0.292, 0.333, 0.200, 0.458, 0.292]) series2 series3 series4
                 demo_depths = Inr f
           \<and> polygons (map round64 [0.292, 0.333, 0.200, 0.458, 0.292]) series2 series3 series4
                 demo_depths (Fin 0) (Fin 4)
               = Inr [polygon1 (Fin 0) (Fin 4) f, polygon2 f, polygon3 f, polygon4 f]
           \<and> polygon1 (Fin 0) (Fin 4) f
               = [[[Fin 0, Fin 4], [Fin 0, Fin 0], [round64 0.292, Fin 0], [round64 0.333, Fin 1],
                   [round64 0.200, Fin 2], [round64 0.458, Fin 3], [round64 0.292, Fin 4]]]"
proof -
  have le: "length demo_depths \<le> length (map round64 [0.292, 0.333, 0.200, 0.458, 0.292])"
    "length demo_depths \<le> length series2" "length demo_depths \<le> length series3"
    "length demo_depths \<le> length series4"
    using assms by (simp_all add: demo_depths_def)
  define f where "f = \<lparr>fraction1 = points (cumulative1 (map round64 [0.292, 0.333, 0.200, 0.458, 0.292])) demo_depths,
      fraction2 = points (cumulative2 (map round64 [0.292, 0.333, 0.200, 0.458, 0.292]) series2) demo_depths,
      fraction3 = points (cumulative3 (map round64 [0.292, 0.333, 0.200, 0.458, 0.292]) series2 series3) demo_depths,
      fraction4 = points (cumulative4 (map round64 [0.292, 0.333, 0.200, 0.458, 0.292]) series2 series3 series4) demo_depths\<rparr>"
  have run: "fraction_loop (map round64 [0.292, 0.333, 0.200, 0.458, 0.292]) series2 series3 series4 demo_depths = Inr f"
    unfolding f_def by (rule fraction_loop_ok [OF le])
  have all: "polygons (map round64 [0.292, 0.333, 0.200, 0.458, 0.292]) series2 series3 series4 demo_depths (Fin 0) (Fin 4)
               = Inr [polygon1 (Fin 0) (Fin 4) f, polygon2 f, polygon3 f, polygon4 f]"
    unfolding polygons_def run by (simp add: bind_e_def)
  have "fraction1 f = [[round64 0.292, Fin 0], [round64 0.333, Fin 1],
                   [round64 0.200, Fin 2], [round64 0.458, Fin 3], [round64 0.292, Fin 4]]"
    by (simp add: f_def points_demo cumulative1_def)
  then have one: "polygon1 (Fin 0) (Fin 4) f
               = [[[Fin 0, Fin 4], [Fin 0, Fin 0], [round64 0.292, Fin 0], [round64 0.333, Fin 1],
                   [round64 0.200, Fin 2], [round64 0.458, Fin 3], [round64 0.292, Fin 4]]]"
    by (simp add: polygon1_def max_coord_def min_coord_def)
  from run all one show ?thesis by blast
qed

theorem polygon1_example_witness:
  "\<exists>f. fraction_loop (map round64 [0.292, 0.333, 0.200, 0.458, 0.292]) demo_series2 demo_series3
           demo_series4 demo_depths = Inr f
       \<and> polygon1 (Fin 0) (Fin 4) f
           = [[[Fin 0, Fin 4], [Fin 0, Fin 0], [round64 0.292, Fin 0], [round64 0.333, Fin 1],
               [round64 0.200, Fin 2], [round64 0.458, Fin 3], [round64 0.292, Fin 4]]]"
proof -
  have h: "5 \<le> length demo_series2" "5 \<le> length demo_series3" "5 \<le> length demo_series4"
    by (simp_all add: demo_series2_def demo_series3_def demo_series4_def)
  from polygon1_example [OF h] show ?thesis by blast
qed

text \<open>
  The claim C3 as stated fails: with the one series of the claim and no values in the
  other three the script raises IndexError, and with the script's other three series
  it builds four polygons, not one.
\<close>

theorem polygon1_needs_four_series:
  "polygons (map round64 [0.292, 0.333, 0.200, 0.458, 0.292]) [] [] [] demo_depths (Fin 0) (Fin 4)
     = Inl IndexError
   \<and> (\<exists>ps. polygons (map round64 [0.292, 0.333, 0.200, 0.458, 0.292]) demo_series2 demo_series3
              demo_series4 demo_depths (Fin 0) (Fin 4) = Inr ps
            \<and> length ps = 4)"
proof -
  have "polygons (map round64 [0.292, 0.333, 0.200, 0.458, 0.292]) [] [] [] demo_depths (Fin 0) (Fin 4)
          = Inl IndexError"
    by (rule polygons_fail) (simp add: demo_depths_def)
  moreover have "length demo_depths \<le> length (map round64 [0.292, 0.333, 0.200, 0.458, 0.292])"
    by (simp add: demo_depths_def)
  then have "\<exists>ps. polygons (map round64 [0.292, 0.333, 0.200, 0.458, 0.292]) demo_series2 demo_series3
              demo_series4 demo_depths (Fin 0) (Fin 4) = Inr ps \<and> length ps = 4"
    using demo_lengths(2-4) by (simp add: polygons_ok)
  ultimately show ?thesis by blast
qed

lemma polygons_prefix:
  "polygons series1 series2 series3 series4 depths min_depth max_depth
       = polygons (take (length depths) series1) (take (length depths) series2)
           (take (length depths) series3) (take (length depths) series4)
           depths min_depth max_depth"
proof (cases "length series1 < length depths \<or> length series2 < length depths
           \<or> length series3 < length depths \<or> length series4 < length depths")
  case True
  then have "length (take (length depths) series1) < length depths
      \<or> length (take (length depths) series2) < length depths
      \<or> length (take (length depths) series3) < length depths
      \<or> length (take (length depths) series4) < length depths"
    by auto
  then show ?thesis
    using True by (simp add: polygons_fail)
next
  case False
  then have ok: "length depths \<le> length series1" "length depths \<le> length series2"
    "length depths \<le> length series3" "length depths \<le> length series4"
    by simp_all
  have ok': "length depths \<le> length (take (length depths) series1)"
    "length depths \<le> length (take (length depths) series2)"
    "length depths \<le> length (take (length depths) series3)"
    "length depths \<le> length (take (length depths) series4)"
    using ok by simp_all
  have pts: "points (cumulative1 (take (length depths) series1)) depths
               = points (cumulative1 series1) depths"
    "points (cumulative2 (take (length depths) series1) (take (length depths) series2)) depths
       = points (cumulative2 series1 series2) depths"
    "points (cumulative3 (take (length depths) series1) (take (length depths) series2)
         (take (length depths) series3)) depths
       = points (cumulative3 series1 series2 series3) depths"
    "points (cumulative4 (take (length depths) series1) (take (length depths) series2)
         (take (length depths) series3) (take (length depths) series4)) depths
       = points (cumulative4 series1 series2 series3 series4) depths"
    by (simp_all add: points_def cumulative1_def cumulative2_def cumulative3_def
        cumulative4_def)
  show ?thesis
    by (simp add: polygons_ok [OF ok] polygons_ok [OF ok'] pts)
qed

text \<open>
  C6, as the code has it. The script compares no lengths. The loop runs over the
  indices of the depth sequence and raises IndexError, from a subscript, exactly when
  one of the series is shorter than the depth sequence; then no polygon is built. When
  every series is at least as long as the depth sequence, also when one is longer, no
  error is raised and the four polygons are built from the values at the indices below
  \<^verbatim>\<open>len(depths)\<close>: the result is that of the series cut to their first
  \<^verbatim>\<open>len(depths)\<close> values.
\<close>

theorem polygons_result:
  "polygons series1 series2 series3 series4 depths min_depth max_depth =
     (if length series1 < length depths \<or> length series2 < length depths
         \<or> length series3 < length depths \<or> length series4 < length depths
      then Inl IndexError
      else Inr [[[[Fin 0, max_depth], [Fin 0, min_depth]]
                   @ points (cumulative1 series1) depths],
                [points (cumulative1 series1) depths
                   @ rev (points (cumulative2 series1 series2) depths)],
                [points (cumulative2 series1 series2) depths
                   @ rev (points (cumulative3 series1 series2 series3) depths)],
                [points (cumulative3 series1 series2 series3) depths
                   @ rev (points (cumulative4 series1 series2 series3 series4) depths)]])
   \<and> polygons series1 series2 series3 series4 depths min_depth max_depth
       = polygons (take (length depths) series1) (take (length depths) series2)
           (take (length depths) series3) (take (length depths) series4)
           depths min_depth max_depth"
proof -
  have "polygons series1 series2 series3 series4 depths min_depth max_depth =
     (if length series1 < length depths \<or> length series2 < length depths
         \<or> length series3 < length depths \<or> length series4 < length depths
      then Inl IndexError
      else Inr [[[[Fin 0, max_depth], [Fin 0, min_depth]]
                   @ points (cumulative1 series1) depths],
                [points (cumulative1 series1) depths
                   @ rev (points (cumulative2 series1 series2) depths)],
                [points (cumulative2 series1 series2) depths
                   @ rev (points (cumulative3 series1 series2 series3) depths)],
                [points (cumulative3 series1 series2 series3) depths
                   @ rev (points (cumulative4 series1 series2 series3 series4) depths)]])"
  proof (cases "length series1 < length depths \<or> length series2 < length depths
           \<or> length series3 < length depths \<or> length series4 < length depths")
    case True
    then show ?thesis by (simp only: polygons_fail [OF True] if_True)
  next
    case False
    then have ok: "length depths \<le> length series1" "length depths \<le> length series2"
      "length depths \<le> length series3" "length depths \<le> length series4"
      by simp_all
    show ?thesis using False by (simp only: polygons_ok [OF ok] if_False)
  qed
  then show ?thesis using polygons_prefix by blast
qed

text \<open>
  The claim C6 as stated fails on a series that is longer than the depth sequence: six
  values against five depths raise nothing, and the polygons are those of the first
  five values.
\<close>

theorem polygons_longer_series_no_error:
  "length (map round64 [0.292, 0.333, 0.200, 0.458, 0.292, 0.5]) \<noteq> length demo_depths
   \<and> polygons (map round64 [0.292, 0.333, 0.200, 0.458, 0.292, 0.5]) demo_series2 demo_series3
       demo_series4 demo_depths (Fin 0) (Fin 4)
     = polygons demo_series1 demo_series2 demo_series3 demo_series4 demo_depths (Fin 0) (Fin 4)
   \<and> (\<exists>ps. polygons (map round64 [0.292, 0.333, 0.200, 0.458, 0.292, 0.5]) demo_series2 demo_series3
              demo_series4 demo_depths (Fin 0) (Fin 4) = Inr ps)"
proof -
  have le: "length demo_depths \<le> length (map round64 [0.292, 0.333, 0.200, 0.458, 0.292, 0.5])"
    by (simp add: demo_depths_def)
  have "take (length demo_depths) (map round64 [0.292, 0.333, 0.200, 0.458, 0.292, 0.5]) = demo_series1"
    by (simp add: demo_depths_def demo_series1_def)
  moreover have "take (length demo_depths) demo_series1 = demo_series1"
    "take (length demo_depths) demo_series2 = demo_series2"
    "take (length demo_depths) demo_series3 = demo_series3"
    "take (length demo_depths) demo_series4 = demo_series4"
    by (simp_all add: demo_depths_def demo_series1_def demo_series2_def demo_series3_def
        demo_series4_def)
  ultimately have "polygons (map round64 [0.292, 0.333, 0.200, 0.458, 0.292, 0.5]) demo_series2
       demo_series3 demo_series4 demo_depths (Fin 0) (Fin 4)
     = polygons demo_series1 demo_series2 demo_series3 demo_series4 demo_depths (Fin 0) (Fin 4)"
    using polygons_prefix [of "map round64 [0.292, 0.333, 0.200, 0.458, 0.292, 0.5]" demo_series2
        demo_series3 demo_series4 demo_depths "Fin 0" "Fin 4"]
    by simp
  moreover have "\<exists>ps. polygons (map round64 [0.292, 0.333, 0.200, 0.458, 0.292, 0.5]) demo_series2
              demo_series3 demo_series4 demo_depths (Fin 0) (Fin 4) = Inr ps"
    using le demo_lengths(2-4) by (simp add: polygons_ok)
  moreover have "length (map round64 [0.292, 0.333, 0.200, 0.458, 0.292, 0.5]) \<noteq> length demo_depths"
    by (simp add: demo_depths_def)
  ultimately show ?thesis by blast
qed

lemma round64_not_NaN: "round64 z \<noteq> NaN"
  by (simp add: round64_def)

lemma f64_le_PInf: "x \<noteq> NaN \<Longrightarrow> f64_le x PInf"
  by (cases x) simp_all

lemma fadd64_ge:
  assumes "f64_le (Fin 0) a" and "f64_le (Fin 0) b" and "is_f64 b"
  shows "f64_le b (fadd64 a b)"
proof (cases b)
  case (Fin y)
  then have y: "round64 y = Fin y" using assms(3) by simp
  show ?thesis
  proof (cases a)
    case (Fin x)
    then have "y \<le> x + y" using assms(1) by simp
    then have "f64_le (round64 y) (round64 (x + y))" by (rule round64_mono)
    then show ?thesis using Fin \<open>b = Fin y\<close> y by simp
  qed (use assms Fin in simp_all)
qed (use assms in \<open>cases a; simp\<close>)+

lemma fadd64_nonneg:
  assumes "f64_le (Fin 0) a" and "f64_le (Fin 0) b"
  shows "f64_le (Fin 0) (fadd64 a b)"
  using assms by (cases a; cases b) (simp_all add: round64_nonneg)

lemma fadd64_mono_left:
  assumes "f64_le (Fin 0) u" and "f64_le u v" and "f64_le (Fin 0) c"
  shows "f64_le (fadd64 u c) (fadd64 v c)"
  using assms
  by (cases u; cases v; cases c) (simp_all add: round64_mono f64_le_PInf round64_not_NaN)

text \<open>
  C9. When the values of the four series are non-negative float64 values and every
  series is at least as long as the depth sequence, the loop stores at each index
  \<open>i\<close> the points of the four cumulative values with \<open>depths[i]\<close>, and the cumulative
  values do not decrease from one component to the next: the value of
  \<^verbatim>\<open>fraction1[i]\<close> is at most that of \<^verbatim>\<open>fraction2[i]\<close>, and so on to \<^verbatim>\<open>fraction4[i]\<close>.
\<close>

theorem cumulative_fractions_monotone:
  assumes n1: "\<forall>x\<in>set series1. f64_le (Fin 0) x \<and> is_f64 x"
    and n2: "\<forall>x\<in>set series2. f64_le (Fin 0) x \<and> is_f64 x"
    and n3: "\<forall>x\<in>set series3. f64_le (Fin 0) x \<and> is_f64 x"
    and n4: "\<forall>x\<in>set series4. f64_le (Fin 0) x \<and> is_f64 x"
    and le: "length depths \<le> length series1" "length depths \<le> length series2"
      "length depths \<le> length series3" "length depths \<le> length series4"
  shows "fractions series1 series2 series3 series4 depths
           = Inr [points (cumulative1 series1) depths,
                  points (cumulative2 series1 series2) depths,
                  points (cumulative3 series1 series2 series3) depths,
                  points (cumulative4 series1 series2 series3 series4) depths]
         \<and> (\<forall>i<length depths.
               f64_le (cumulative1 series1 i) (cumulative2 series1 series2 i)
             \<and> f64_le (cumulative2 series1 series2 i) (cumulative3 series1 series2 series3 i)
             \<and> f64_le (cumulative3 series1 series2 series3 i)
                 (cumulative4 series1 series2 series3 series4 i))"
proof -
  have run: "fractions series1 series2 series3 series4 depths
           = Inr [points (cumulative1 series1) depths,
                  points (cumulative2 series1 series2) depths,
                  points (cumulative3 series1 series2 series3) depths,
                  points (cumulative4 series1 series2 series3 series4) depths]"
    by (simp add: fractions_def bind_e_def fraction_loop_ok [OF le])
  have mono: "f64_le (cumulative1 series1 i) (cumulative2 series1 series2 i)
             \<and> f64_le (cumulative2 series1 series2 i) (cumulative3 series1 series2 series3 i)
             \<and> f64_le (cumulative3 series1 series2 series3 i)
                 (cumulative4 series1 series2 series3 series4 i)"
    if i: "i < length depths" for i
  proof -
    define a where "a = series1 ! i"
    define b where "b = series2 ! i"
    define c where "c = series3 ! i"
    define d where "d = series4 ! i"
    have a: "f64_le (Fin 0) a" "is_f64 a" using n1 i le(1) by (simp_all add: a_def)
    have b: "f64_le (Fin 0) b" "is_f64 b" using n2 i le(2) by (simp_all add: b_def)
    have c: "f64_le (Fin 0) c" "is_f64 c" using n3 i le(3) by (simp_all add: c_def)
    have d: "f64_le (Fin 0) d" using n4 i le(4) by (simp add: d_def)
    have 1: "f64_le a (fadd64 b a)" using b(1) a by (rule fadd64_ge)
    have cb: "f64_le b (fadd64 c b)" using c(1) b by (rule fadd64_ge)
    have 2: "f64_le (fadd64 b a) (fadd64 (fadd64 c b) a)"
      using b(1) cb a(1) by (rule fadd64_mono_left)
    have dc: "f64_le c (fadd64 d c)" using d c by (rule fadd64_ge)
    have dcb: "f64_le (fadd64 c b) (fadd64 (fadd64 d c) b)"
      using c(1) dc b(1) by (rule fadd64_mono_left)
    have "f64_le (Fin 0) (fadd64 c b)" using c(1) b(1) by (rule fadd64_nonneg)
    then have 3: "f64_le (fadd64 (fadd64 c b) a) (fadd64 (fadd64 (fadd64 d c) b) a)"
      using dcb a(1) by (rule fadd64_mono_left)
    from 1 2 3 show ?thesis
      by (simp add: cumulative1_def cumulative2_def cumulative3_def cumulative4_def
          a_def b_def c_def d_def)
  qed
  from run mono show ?thesis by blast
qed

theorem cumulative_fractions_monotone_witness:
  "fractions demo_series1 demo_series2 demo_series3 demo_series4 demo_depths
     = Inr [points (cumulative1 demo_series1) demo_depths,
            points (cumulative2 demo_series1 demo_series2) demo_depths,
            points (cumulative3 demo_series1 demo_series2 demo_series3) demo_depths,
            points (cumulative4 demo_series1 demo_series2 demo_series3 demo_series4) demo_depths]
   \<and> f64_le (cumulative1 demo_series1 4) (cumulative2 demo_series1 demo_series2 4)
   \<and> f64_le (cumulative2 demo_series1 demo_series2 4)
       (cumulative3 demo_series1 demo_series2 demo_series3 4)
   \<and> f64_le (cumulative3 demo_series1 demo_series2 demo_series3 4)
       (cumulative4 demo_series1 demo_series2 demo_series3 demo_series4 4)"
proof -
  have h: "\<forall>x\<in>set demo_series1. f64_le (Fin 0) x \<and> is_f64 x"
    "\<forall>x\<in>set demo_series2. f64_le (Fin 0) x \<and> is_f64 x"
    "\<forall>x\<in>set demo_series3. f64_le (Fin 0) x \<and> is_f64 x"
    "\<forall>x\<in>set demo_series4. f64_le (Fin 0) x \<and> is_f64 x"
    by (simp_all add: demo_series1_def demo_series2_def demo_series3_def demo_series4_def
        round64_nonneg is_f64_round64)
  have i: "4 < length demo_depths" by (simp add: demo_depths_def)
  from cumulative_fractions_monotone [OF h demo_lengths] i show ?thesis by blast
qed

end
